theory Spec2Isabelle
  imports
    Main
    "HOL-Library.AList"
    "HOL-Library.Sublist"
    "HOL-Library.Multiset"
    "HOL-Library.Char_ord"
    "HOL-Library.List_Lexorder"
    "HOL-Library.Product_Lexorder"
begin

section \<open>Alias generator of \<^verbatim>\<open>python/aliases.py\<close>\<close>

text \<open>
  The script computes, from the registry of alias declarations, the text of every
  generated \<^verbatim>\<open>__init__.py\<close> (\<^verbatim>\<open>collect_managed\<close>), and reconciles a directory
  tree with it (\<^verbatim>\<open>fix\<close>, \<^verbatim>\<open>check\<close>). Strings are \<^typ>\<open>string\<close>, compared
  character by character as Python compares \<^verbatim>\<open>str\<close>; a \<^verbatim>\<open>pathlib.Path\<close> is the list
  of its components below the filesystem root.
\<close>

subsection \<open>Strings and paths\<close>

type_synonym path = "string list"

definition nl :: string where
  "nl = [CHR 0x0A]"

text \<open>\<^verbatim>\<open>s.replace(".", "/")\<close>\<close>

definition replace_dots :: "string \<Rightarrow> string" where
  "replace_dots s = map (\<lambda>c. if c = CHR ''.'' then CHR ''/'' else c) s"

text \<open>\<^verbatim>\<open>s.split("/")\<close>: the pieces between the separators, empty ones included.\<close>

fun split_slash :: "string \<Rightarrow> string list" where
  "split_slash [] = [[]]"
| "split_slash (c # cs) =
     (if c = CHR ''/'' then [] # split_slash cs
      else (case split_slash cs of
              [] \<Rightarrow> [[c]]
            | w # ws \<Rightarrow> (c # w) # ws))"

text \<open>
  The components pathlib keeps of a string operand: empty pieces (repeated or trailing
  slashes) and \<^verbatim>\<open>.\<close> pieces are dropped.
\<close>

definition parts :: "string \<Rightarrow> path" where
  "parts s = filter (\<lambda>w. w \<noteq> [] \<and> w \<noteq> ''.'') (split_slash s)"

text \<open>
  \<^verbatim>\<open>base / s\<close> for a string \<^verbatim>\<open>s\<close>: an operand that starts with a slash is absolute
  and replaces the base. pathlib gives an operand that starts with exactly two slashes a
  root of its own, \<^verbatim>\<open>//\<close>, which Linux resolves to the same directory as
  \<^verbatim>\<open>/\<close>; a path is kept here by the components it resolves to, so the two roots
  are not told apart. Relative operands, the only ones that dotted package names and the
  constants of the script produce, are not concerned.
\<close>

definition join :: "path \<Rightarrow> string \<Rightarrow> path" where
  "join base s =
     (case s of
        [] \<Rightarrow> base
      | c # _ \<Rightarrow> if c = CHR ''/'' then parts s else base @ parts s)"

text \<open>\<^verbatim>\<open>path.parent\<close>; the parent of the filesystem root is the root itself.\<close>

definition parent :: "path \<Rightarrow> path" where
  "parent p = butlast p"

text \<open>\<^verbatim>\<open>path.name\<close>: the last component, empty for the filesystem root.\<close>

definition name :: "path \<Rightarrow> string" where
  "name p = (case rev p of [] \<Rightarrow> [] | n # _ \<Rightarrow> n)"

text \<open>
  \<^verbatim>\<open>path.suffix == ".pyc"\<close>. pathlib's suffix starts at the last dot of the name,
  provided that dot is neither the first nor the last character.
\<close>

definition suffix_is_pyc :: "path \<Rightarrow> bool" where
  "suffix_is_pyc p =
     (let n = name p
      in 4 < length n \<and> drop (length n - 4) n = ''.pyc'')"

text \<open>\<^verbatim>\<open>path.is_relative_to(p)\<close>: \<^verbatim>\<open>p\<close>'s components are a prefix of \<^verbatim>\<open>path\<close>'s.\<close>

definition is_relative_to :: "path \<Rightarrow> path \<Rightarrow> bool" where
  "is_relative_to p q = prefix q p"

subsection \<open>The registry\<close>

text \<open>
  Modelled from the spec: the class of the third component \<^verbatim>\<open>im\<close> of a registry
  entry is declared in \<^verbatim>\<open>hopsworks/internal/aliases.py\<close>, which is not part of the
  sources at hand. The specification gives it three fields: an optional alias name, the
  deprecation flag and an optional "available until" string. It has no attribute
  \<^verbatim>\<open>available\<close> and defines no ordering; two such objects are equal when their
  fields are.
\<close>

record in_module =
  as_alias :: "string option"
  deprecated :: bool
  available_until :: "string option"

type_synonym entry = "string \<times> string \<times> in_module"

text \<open>
  \<^verbatim>\<open>Registry.get_modules()\<close>: a dict from destination package to the list of its
  entries \<^verbatim>\<open>(f, i, im)\<close>, in insertion order.
\<close>

type_synonym registry = "(string \<times> entry list) list"

text \<open>The managed files: a dict from path to expected content, in insertion order.\<close>

type_synonym managed = "(path \<times> string) list"

datatype error =
    AliasCollision string string path
  | TypeError
  | AttributeError
  | KeyError
  | FileExistsError
  | NotADirectoryError
  | IsADirectoryError
  | Divergence

text \<open>
  \<^verbatim>\<open>AliasCollision original alias pkg\<close> stands for the diagnostic printed by
  \<^verbatim>\<open>collect_managed\<close> followed by \<^verbatim>\<open>exit(1)\<close>, and \<^verbatim>\<open>Divergence\<close> for the
  \<^verbatim>\<open>exit(1)\<close> at the end of \<^verbatim>\<open>check\<close>; the other errors are uncaught exceptions,
  which end the process as well, with status 1.
\<close>

definition and_then :: "error + 'a \<Rightarrow> ('a \<Rightarrow> error + 'b) \<Rightarrow> error + 'b" where
  "and_then m k = (case m of Inl e \<Rightarrow> Inl e | Inr v \<Rightarrow> k v)"

text \<open>Truth value of an optional string: \<^verbatim>\<open>None\<close> and \<^verbatim>\<open>""\<close> are false.\<close>

definition truthy :: "string option \<Rightarrow> bool" where
  "truthy v = (case v of None \<Rightarrow> False | Some s \<Rightarrow> s \<noteq> [])"

subsection \<open>Sorting the entries of a package\<close>

text \<open>
  \<^verbatim>\<open>imports.sort()\<close> compares the tuples \<^verbatim>\<open>(f, i, im)\<close>. Python finds the first
  position where two tuples differ and compares there; when both strings agree and the
  \<^verbatim>\<open>im\<close> objects differ, comparing them raises \<^verbatim>\<open>TypeError\<close>.
\<close>

fun lt_entry :: "entry \<Rightarrow> entry \<Rightarrow> error + bool" where
  "lt_entry (f1, i1, im1) (f2, i2, im2) =
     (if f1 \<noteq> f2 then Inr (f1 < f2)
      else if i1 \<noteq> i2 then Inr (i1 < i2)
      else if im1 = im2 then Inr False
      else Inl TypeError)"

text \<open>
  The sort is stable: an element is placed after the elements that do not compare
  greater. Any raising comparison aborts the sort.
\<close>

fun insert_entry :: "entry \<Rightarrow> entry list \<Rightarrow> error + entry list" where
  "insert_entry x [] = Inr [x]"
| "insert_entry x (y # ys) =
     and_then (lt_entry x y) (\<lambda>b.
       if b then Inr (x # y # ys)
       else and_then (insert_entry x ys) (\<lambda>r. Inr (y # r)))"

fun sort_into :: "entry list \<Rightarrow> entry list \<Rightarrow> error + entry list" where
  "sort_into acc [] = Inr acc"
| "sort_into acc (x # xs) = and_then (insert_entry x acc) (\<lambda>acc'. sort_into acc' xs)"

definition sort_entries :: "entry list \<Rightarrow> error + entry list" where
  "sort_entries xs = sort_into [] xs"

subsection \<open>\<^verbatim>\<open>collect_managed\<close>\<close>

definition header :: string where
  "header = ''# ruff: noqa'' @ nl
     @ ''# This file is generated by aliases.py. Do not edit it manually!'' @ nl"

definition managed_path :: "path \<Rightarrow> string \<Rightarrow> path" where
  "managed_path root pkg = join (join root (replace_dots pkg)) ''__init__.py''"

text \<open>\<^verbatim>\<open>managed[pkg] += s\<close>\<close>

definition dict_append :: "managed \<Rightarrow> path \<Rightarrow> string \<Rightarrow> error + managed" where
  "dict_append m k s =
     (case map_of m k of
        None \<Rightarrow> Inl KeyError
      | Some c \<Rightarrow> Inr (AList.update k (c @ s) m))"

text \<open>\<^verbatim>\<open>alias = im.as_alias if im.as_alias else i\<close>\<close>

definition alias_of :: "in_module \<Rightarrow> string \<Rightarrow> string" where
  "alias_of im i =
     (case as_alias im of
        None \<Rightarrow> i
      | Some a \<Rightarrow> if a \<noteq> [] then a else i)"

text \<open>
  Lines 104 to 108: the right-hand side of the binding. With the deprecation flag set and
  a true \<^verbatim>\<open>im.available_until\<close>, the format string reads \<^verbatim>\<open>im.available.until\<close>;
  \<^verbatim>\<open>im\<close> has no attribute \<^verbatim>\<open>available\<close>, so the lookup raises.
\<close>

definition rhs_of :: "in_module \<Rightarrow> string \<Rightarrow> error + string" where
  "rhs_of im original =
     (if deprecated im then
        and_then
          (if truthy (available_until im) then Inl AttributeError else Inr [])
          (\<lambda>available_until.
             Inr (''hopsworks.internal.aliases.deprecated('' @ available_until @ '')(''
                  @ original @ '')''))
      else Inr original)"

text \<open>
  The loop of lines 92 to 109 over the sorted entries. \<^verbatim>\<open>declared_names\<close> is
  created empty before the loop and the loop body only reads it.
\<close>

fun emit :: "path \<Rightarrow> string set \<Rightarrow> string set \<Rightarrow> entry list \<Rightarrow> managed \<Rightarrow> error + managed" where
  "emit pkg imported_modules declared_names [] m = Inr m"
| "emit pkg imported_modules declared_names ((f, i, im) # rest) m =
     (let original = f @ ''.'' @ i;
          alias = alias_of im i
      in if alias \<in> declared_names then Inl (AliasCollision original alias pkg)
         else
           and_then
             (if f \<notin> imported_modules
              then and_then (dict_append m pkg (''import '' @ f @ nl))
                     (\<lambda>m'. Inr (m', insert f imported_modules))
              else Inr (m, imported_modules))
             (\<lambda>(m1, imported_modules1).
                and_then (rhs_of im original) (\<lambda>original1.
                and_then (dict_append m1 pkg (alias @ '' = '' @ original1 @ nl)) (\<lambda>m2.
                  emit pkg imported_modules1 declared_names rest m2))))"

text \<open>One iteration of the loop over the registry (lines 81 to 109).\<close>

definition collect_package :: "path \<Rightarrow> managed \<Rightarrow> string \<times> entry list \<Rightarrow> error + managed" where
  "collect_package root m item =
     (case item of (pkg0, imports) \<Rightarrow>
        let pkg = managed_path root pkg0;
            m1 = AList.update pkg header m
        in if imports = [] then Inr m1
           else
             and_then (dict_append m1 pkg (''import hopsworks.internal.aliases'' @ nl)) (\<lambda>m2.
             and_then (sort_entries imports) (\<lambda>sorted.
               emit pkg {''hopsworks.internal.aliases''} {} sorted m2)))"

fun collect_loop :: "path \<Rightarrow> registry \<Rightarrow> managed \<Rightarrow> error + managed" where
  "collect_loop root [] m = Inr m"
| "collect_loop root (item # rest) m =
     and_then (collect_package root m item) (collect_loop root rest)"

text \<open>
  \<^verbatim>\<open>collect_managed(root)\<close>, with the registry that \<^verbatim>\<open>collect_aliases(root)\<close>
  returns taken as an argument.
\<close>

definition collect_managed :: "path \<Rightarrow> registry \<Rightarrow> error + managed" where
  "collect_managed root reg = collect_loop root reg []"

subsection \<open>The directory tree\<close>

text \<open>
  The tree is a table from paths to nodes; the filesystem root \<^verbatim>\<open>/\<close> (the empty
  path) is always a directory. Only regular files and directories are modelled.
\<close>

datatype node = File string | Dir

type_synonym fs = "(path \<times> node) list"

definition lookup :: "fs \<Rightarrow> path \<Rightarrow> node option" where
  "lookup t p = (if p = [] then Some Dir else map_of t p)"

definition is_file :: "fs \<Rightarrow> path \<Rightarrow> bool" where
  "is_file t p = (case lookup t p of Some (File _) \<Rightarrow> True | _ \<Rightarrow> False)"

text \<open>
  \<^verbatim>\<open>d.mkdir(parents=True, exist_ok=True)\<close>: \<^verbatim>\<open>os.mkdir\<close> is tried first; an existing
  directory is accepted, an existing file raises, a missing parent is created
  recursively before the directory itself.
\<close>

function mkdir_parents :: "fs \<Rightarrow> path \<Rightarrow> error + fs" where
  "mkdir_parents t d =
     (case lookup t d of
        Some Dir \<Rightarrow> Inr t
      | Some (File _) \<Rightarrow> Inl FileExistsError
      | None \<Rightarrow>
          (case lookup t (parent d) of
             Some Dir \<Rightarrow> Inr (AList.update d Dir t)
           | Some (File _) \<Rightarrow> Inl NotADirectoryError
           | None \<Rightarrow>
               and_then (mkdir_parents t (parent d)) (\<lambda>t'. Inr (AList.update d Dir t'))))"
  by pat_completeness auto
termination
  by (relation "measure (\<lambda>(t, d). length d)") (auto simp: lookup_def parent_def split: if_splits)

text \<open>\<^verbatim>\<open>p.touch()\<close>: creates an empty file unless something exists at the path.\<close>

definition touch :: "fs \<Rightarrow> path \<Rightarrow> fs" where
  "touch t p = (case lookup t p of None \<Rightarrow> AList.update p (File []) t | Some _ \<Rightarrow> t)"

text \<open>\<^verbatim>\<open>p.write_text(content)\<close>\<close>

definition write_text :: "fs \<Rightarrow> path \<Rightarrow> string \<Rightarrow> error + fs" where
  "write_text t p content =
     (case lookup t p of
        Some Dir \<Rightarrow> Inl IsADirectoryError
      | _ \<Rightarrow> Inr (AList.update p (File content) t))"

text \<open>\<^verbatim>\<open>p.unlink()\<close>\<close>

definition unlink :: "fs \<Rightarrow> path \<Rightarrow> fs" where
  "unlink t p = AList.delete p t"

text \<open>\<^verbatim>\<open>d.iterdir()\<close>: the entries whose parent is \<^verbatim>\<open>d\<close>.\<close>

definition iterdir :: "fs \<Rightarrow> path \<Rightarrow> path list" where
  "iterdir t d = filter (\<lambda>q. q \<noteq> [] \<and> parent q = d) (map fst t)"

definition depth :: "fs \<Rightarrow> nat" where
  "depth t = foldr max (map (\<lambda>e. length (fst e)) t) 0"

text \<open>
  \<^verbatim>\<open>traverse(path, f)\<close> calls \<^verbatim>\<open>f\<close> on every file below \<^verbatim>\<open>path\<close>. The two
  callbacks of the script never create an entry and remove at most the file they are
  called on, so the walk visits the files of the tree it starts on: \<open>traverse t p\<close> is
  the list of the paths \<^verbatim>\<open>f\<close> is called on, in order.
\<close>

function traverse :: "fs \<Rightarrow> path \<Rightarrow> path list" where
  "traverse t p =
     (case lookup t p of
        None \<Rightarrow> []
      | Some (File _) \<Rightarrow> [p]
      | Some Dir \<Rightarrow> concat (map (traverse t) (iterdir t p)))"
  by pat_completeness auto
termination
proof (relation "measure (\<lambda>(t, p). Suc (depth t) - length p)")
  show "wf (measure (\<lambda>(t, p). Suc (depth t) - length p))"
    by simp
next
  fix t :: fs and p q :: path
  assume "q \<in> set (iterdir t p)"
  then have q: "q \<in> fst ` set t" "q \<noteq> []" "butlast q = p"
    by (auto simp: iterdir_def parent_def)
  have "list_all (\<lambda>e. length (fst e) \<le> depth t) t"
    unfolding depth_def by (induction t) (auto simp: list_all_iff le_max_iff_disj)
  with q(1) have "length q \<le> depth t"
    by (auto simp: list_all_iff)
  moreover from q(2,3) have "length q = Suc (length p)"
    by (cases q rule: rev_cases) auto
  ultimately show "((t, q), (t, p)) \<in> measure (\<lambda>(t, p). Suc (depth t) - length p)"
    by simp
qed

subsection \<open>\<^verbatim>\<open>fix\<close>\<close>

definition SOURCES :: "string list" where
  "SOURCES =
     [''hopsworks/__init__.py'',
      ''hopsworks/connection.py'',
      ''hopsworks/internal'',
      ''hopsworks/platform'',
      ''hopsworks/fs'',
      ''hopsworks/ml'']"

definition IGNORED :: "string list" where
  "IGNORED =
     [''tests'',
      ''hsfs'',
      ''hopsworks'',
      ''hsml'',
      ''hopsworks_common'',
      ''hopsworks.egg-info'']"

text \<open>\<^verbatim>\<open>ignored = [root / path for path in SOURCES + IGNORED]\<close>\<close>

definition ignored :: "path \<Rightarrow> path list" where
  "ignored root = map (join root) (SOURCES @ IGNORED)"

text \<open>\<^verbatim>\<open>any(path.is_relative_to(p) for p in ignored)\<close>\<close>

definition under_ignored :: "path \<Rightarrow> path \<Rightarrow> bool" where
  "under_ignored root p = list_ex (is_relative_to p) (ignored root)"

text \<open>\<^verbatim>\<open>path in managed\<close>\<close>

definition is_managed :: "managed \<Rightarrow> path \<Rightarrow> bool" where
  "is_managed m p = (map_of m p \<noteq> None)"

text \<open>The first loop of \<^verbatim>\<open>fix\<close>, for one managed file.\<close>

definition write_one :: "fs \<Rightarrow> path \<times> string \<Rightarrow> error option \<times> fs" where
  "write_one t item =
     (case item of (filepath, content) \<Rightarrow>
        (case mkdir_parents t (parent filepath) of
           Inl e \<Rightarrow> (Some e, t)
         | Inr t1 \<Rightarrow>
             (let t2 = touch t1 filepath
              in case write_text t2 filepath content of
                   Inl e \<Rightarrow> (Some e, t2)
                 | Inr t3 \<Rightarrow> (None, t3))))"

fun write_all :: "managed \<Rightarrow> fs \<Rightarrow> error option \<times> fs" where
  "write_all [] t = (None, t)"
| "write_all (item # rest) t =
     (case write_one t item of
        (Some e, t1) \<Rightarrow> (Some e, t1)
      | (None, t1) \<Rightarrow> write_all rest t1)"

definition remove_if_excess :: "path \<Rightarrow> managed \<Rightarrow> path \<Rightarrow> fs \<Rightarrow> fs" where
  "remove_if_excess root m p t =
     (if parent p = root then t
      else if under_ignored root p then t
      else if \<not> is_managed m p then unlink t p
      else t)"

text \<open>
  \<^verbatim>\<open>fix(root)\<close>: the error that ended the run, if any, and the tree it leaves behind.
\<close>

definition fix_tree :: "path \<Rightarrow> registry \<Rightarrow> fs \<Rightarrow> error option \<times> fs" where
  "fix_tree root reg t =
     (case collect_managed root reg of
        Inl e \<Rightarrow> (Some e, t)
      | Inr m \<Rightarrow>
          (case write_all m t of
             (Some e, t1) \<Rightarrow> (Some e, t1)
           | (None, t1) \<Rightarrow> (None, fold (remove_if_excess root m) (traverse t1 root) t1)))"

subsection \<open>\<^verbatim>\<open>check\<close>\<close>

text \<open>
  The lines \<^verbatim>\<open>check\<close> prints. Each of the first three is printed together with
  \<^verbatim>\<open>ok = False\<close>, so \<^verbatim>\<open>ok\<close> holds at the end exactly when none of them was printed.
\<close>

datatype message =
    ShouldExist path
  | WrongContent path
  | ShouldntExist path
  | AliasesCorrect
  | RunFix

text \<open>
  \<^verbatim>\<open>p.read_text()\<close> opens the file in text mode, which turns every carriage return of
  the stored text, alone or followed by a line feed, into a line feed; \<^verbatim>\<open>write_text\<close>
  stores the text as it is.
\<close>

fun universal_newlines :: "string \<Rightarrow> string" where
  "universal_newlines [] = []"
| "universal_newlines [c] = (if c = CHR 0x0D then [CHR 0x0A] else [c])"
| "universal_newlines (c # d # cs) =
     (if c = CHR 0x0D \<and> d = CHR 0x0A then CHR 0x0A # universal_newlines cs
      else if c = CHR 0x0D then CHR 0x0A # universal_newlines (d # cs)
      else c # universal_newlines (d # cs))"

text \<open>The first loop of \<^verbatim>\<open>check\<close>; reading a directory raises.\<close>

fun check_managed :: "managed \<Rightarrow> fs \<Rightarrow> message list \<times> error option" where
  "check_managed [] t = ([], None)"
| "check_managed ((filepath, content) # rest) t =
     (case lookup t filepath of
        None \<Rightarrow> (case check_managed rest t of (ms, r) \<Rightarrow> (ShouldExist filepath # ms, r))
      | Some Dir \<Rightarrow> ([], Some IsADirectoryError)
      | Some (File stored) \<Rightarrow>
          if universal_newlines stored \<noteq> content
          then (case check_managed rest t of (ms, r) \<Rightarrow> (WrongContent filepath # ms, r))
          else check_managed rest t)"

definition check_file :: "path \<Rightarrow> managed \<Rightarrow> path \<Rightarrow> message list" where
  "check_file root m p =
     (if parent p = root \<or> under_ignored root p then []
      else if suffix_is_pyc p \<or> ''__pycache__'' \<in> set p then []
      else if \<not> is_managed m p then [ShouldntExist p]
      else [])"

text \<open>
  \<^verbatim>\<open>check(root)\<close>: what is printed, and the error that ended the run, if any.
\<close>

definition check :: "path \<Rightarrow> registry \<Rightarrow> fs \<Rightarrow> message list \<times> error option" where
  "check root reg t =
     (case collect_managed root reg of
        Inl e \<Rightarrow> ([], Some e)
      | Inr m \<Rightarrow>
          (case check_managed m t of
             (ms, Some e) \<Rightarrow> (ms, Some e)
           | (ms, None) \<Rightarrow>
               (let ms' = ms @ concat (map (check_file root m) (traverse t root))
                in if ms' = [] then ([AliasesCorrect], None)
                   else (ms' @ [RunFix], Some Divergence))))"

text \<open>The exit status of the process: 0 when the command returns, 1 otherwise.\<close>

definition exit_status :: "error option \<Rightarrow> nat" where
  "exit_status r = (case r of None \<Rightarrow> 0 | Some _ \<Rightarrow> 1)"

section \<open>Notions used in the statements and proofs\<close>

subsection \<open>The generator as a function of the declarations\<close>

text \<open>The sort key of an entry: the two strings of the tuple.\<close>

definition key :: "entry \<Rightarrow> string \<times> string" where
  "key e = (fst e, fst (snd e))"

text \<open>
  A set of entries is free of clashes when no two different entries have the same key:
  these are the lists that \<^verbatim>\<open>imports.sort()\<close> can sort without comparing two
  \<^verbatim>\<open>im\<close> objects.
\<close>

definition clash_free :: "entry set \<Rightarrow> bool" where
  "clash_free S = (\<forall>x\<in>S. \<forall>y\<in>S. key x = key y \<longrightarrow> x = y)"

text \<open>
  Insertion by key alone, after the entries whose key is not greater.
\<close>

fun ins :: "entry \<Rightarrow> entry list \<Rightarrow> entry list" where
  "ins x [] = [x]"
| "ins x (y # ys) = (if key x < key y then x # y # ys else y # ins x ys)"

text \<open>
  The text that the loop over the sorted entries appends to the file of a package, and
  the whole content of that file.
\<close>

fun emit_text :: "string set \<Rightarrow> entry list \<Rightarrow> error + string" where
  "emit_text imported [] = Inr []"
| "emit_text imported ((f, i, im) # rest) =
     and_then (rhs_of im (f @ ''.'' @ i)) (\<lambda>original.
     and_then (emit_text (insert f imported) rest) (\<lambda>text.
       Inr ((if f \<notin> imported then ''import '' @ f @ nl else [])
            @ alias_of im i @ '' = '' @ original @ nl @ text)))"

definition render :: "entry list \<Rightarrow> error + string" where
  "render imports =
     (if imports = [] then Inr header
      else
        and_then (sort_entries imports) (\<lambda>sorted.
        and_then (emit_text {''hopsworks.internal.aliases''} sorted) (\<lambda>text.
          Inr (header @ ''import hopsworks.internal.aliases'' @ nl @ text))))"

definition renders :: "string \<times> entry list \<Rightarrow> bool" where
  "renders item = (case render (snd item) of Inl _ \<Rightarrow> False | Inr _ \<Rightarrow> True)"

subsection \<open>Well-formed registries\<close>

text \<open>
  A destination package is a dotted module name: no slash, and no empty component (no
  leading, trailing or doubled dot). A registry is a dict, so its keys are distinct.
\<close>

definition wf_name :: "string \<Rightarrow> bool" where
  "wf_name s = (CHR ''/'' \<notin> set s \<and> [] \<notin> set (split_slash (replace_dots s)))"

definition wf_registry :: "registry \<Rightarrow> bool" where
  "wf_registry reg = (distinct (map fst reg) \<and> list_all (\<lambda>item. wf_name (fst item)) reg)"

text \<open>
  The names of a registry are plain when none holds a carriage return, and so are the
  generated contents when none does: these are the texts that \<^verbatim>\<open>read_text\<close> reads
  back as they were written.
\<close>

definition plain_entry :: "entry \<Rightarrow> bool" where
  "plain_entry e =
     (case e of (f, i, im) \<Rightarrow>
        CHR 0x0D \<notin> set f \<and> CHR 0x0D \<notin> set i
        \<and> (case as_alias im of None \<Rightarrow> True | Some a \<Rightarrow> CHR 0x0D \<notin> set a))"

definition plain_registry :: "registry \<Rightarrow> bool" where
  "plain_registry reg = list_all (\<lambda>item. list_all plain_entry (snd item)) reg"

definition no_carriage_return :: "managed \<Rightarrow> bool" where
  "no_carriage_return m = list_all (\<lambda>item. CHR 0x0D \<notin> set (snd item)) m"

text \<open>
  The inverse of \<^const>\<open>split_slash\<close>.
\<close>

fun join_slash :: "string list \<Rightarrow> string" where
  "join_slash [] = []"
| "join_slash [w] = w"
| "join_slash (w # v # ws) = w @ CHR ''/'' # join_slash (v # ws)"

text \<open>
  Whether a path is a key of the mapping generated from a registry.
\<close>

definition managed_file :: "path \<Rightarrow> registry \<Rightarrow> path \<Rightarrow> bool" where
  "managed_file root reg p =
     (case collect_managed root reg of Inl e \<Rightarrow> False | Inr m \<Rightarrow> is_managed m p)"

subsection \<open>Trees\<close>

text \<open>
  The walk from \<open>r\<close> reaches the file \<open>p\<close>: \<open>p\<close> is a file below \<open>r\<close>, and
  everything between the two is a directory.
\<close>

definition visits :: "fs \<Rightarrow> path \<Rightarrow> path \<Rightarrow> bool" where
  "visits t r p \<longleftrightarrow>
     is_file t p \<and> prefix r p \<and> (\<forall>q. prefix r q \<and> strict_prefix q p \<longrightarrow> lookup t q = Some Dir)"

text \<open>
  A managed file is settled in a tree when it is there with its content, in a directory.
\<close>

definition settled :: "fs \<Rightarrow> path \<times> string \<Rightarrow> bool" where
  "settled t item \<longleftrightarrow>
     lookup t (fst item) = Some (File (snd item)) \<and> lookup t (parent (fst item)) = Some Dir"

text \<open>
  A managed path can be written in a tree when no file stands where one of its
  directories has to be, and no directory where the file has to be.
\<close>

definition writable :: "fs \<Rightarrow> path \<Rightarrow> bool" where
  "writable t p \<longleftrightarrow>
     list_all (\<lambda>q. \<not> is_file t q) (prefixes (parent p)) \<and> lookup t p \<noteq> Some Dir"

text \<open>
  The files that \<^verbatim>\<open>remove_if_excess\<close> unlinks.
\<close>

definition excess :: "path \<Rightarrow> managed \<Rightarrow> path \<Rightarrow> bool" where
  "excess root m p \<longleftrightarrow> parent p \<noteq> root \<and> \<not> under_ignored root p \<and> \<not> is_managed m p"

text \<open>
  The path a printed line is about.
\<close>

fun mentions :: "message \<Rightarrow> path \<Rightarrow> bool" where
  "mentions (ShouldExist q) p = (q = p)"
| "mentions (WrongContent q) p = (q = p)"
| "mentions (ShouldntExist q) p = (q = p)"
| "mentions AliasesCorrect p = False"
| "mentions RunFix p = False"

subsection \<open>Concrete inputs\<close>

definition plain :: in_module where
  "plain = \<lparr>as_alias = None, deprecated = False, available_until = None\<rparr>"

definition collision_registry :: registry where
  "collision_registry =
     [(''pkg.sub'', [(''pkg.a'', ''Foo'', plain), (''pkg.b'', ''Foo'', plain)])]"

text \<open>
  A tree with a top-level file, a stale generated file inside the ignored
  \<^verbatim>\<open>hopsworks\<close> directory, and a bytecode file and a stray file in an unmanaged
  directory.
\<close>

definition tree1 :: fs where
  "tree1 =
     [([''repo''], Dir),
      ([''repo'', ''setup.py''], File ''setup''),
      ([''repo'', ''hopsworks''], Dir),
      ([''repo'', ''hopsworks'', ''x''], Dir),
      ([''repo'', ''hopsworks'', ''x'', ''__init__.py''], File ''junk''),
      ([''repo'', ''junk''], Dir),
      ([''repo'', ''junk'', ''a.pyc''], File ''bytecode''),
      ([''repo'', ''junk'', ''b.txt''], File ''stray'')]"

text \<open>
  A tree whose only file is the stale generated file of a package named
  \<^verbatim>\<open>__pycache__\<close>.
\<close>

definition tree2 :: fs where
  "tree2 =
     [([''repo''], Dir),
      ([''repo'', ''__pycache__''], Dir),
      ([''repo'', ''__pycache__'', ''__init__.py''], File ''junk'')]"

text \<open>
  A tree where a regular file stands in the place of the directory of a package.
\<close>

definition tree3 :: fs where
  "tree3 =
     [([''repo''], Dir),
      ([''repo'', ''hopsworks''], Dir),
      ([''repo'', ''pkg''], File ''not a directory'')]"

section \<open>Properties of the generator\<close>

subsection \<open>Evaluation on concrete registries\<close>

lemmas generator_defs =
  collect_managed_def collect_package_def managed_path_def join_def parts_def
  replace_dots_def dict_append_def and_then_def sort_entries_def alias_of_def rhs_of_def
  truthy_def

text \<open>
  Claim C2. A registry with the single destination package \<^verbatim>\<open>pkg.sub\<close> and the single
  declaration of \<^verbatim>\<open>Foo\<close> from \<^verbatim>\<open>pkg.impl\<close>, without alias and not deprecated,
  yields exactly one managed file, \<^verbatim>\<open>root/pkg/sub/__init__.py\<close>, whose content is the two
  header lines, the import of the alias support module, the import of \<^verbatim>\<open>pkg.impl\<close> and
  the binding of \<^verbatim>\<open>Foo\<close>, and nothing else.
\<close>

theorem scenario_single_alias:
  "collect_managed root
     [(''pkg.sub'',
       [(''pkg.impl'', ''Foo'',
         \<lparr>as_alias = None, deprecated = False, available_until = until\<rparr>)])]
   = Inr [(root @ [''pkg'', ''sub'', ''__init__.py''],
           ''# ruff: noqa'' @ nl
           @ ''# This file is generated by aliases.py. Do not edit it manually!'' @ nl
           @ ''import hopsworks.internal.aliases'' @ nl
           @ ''import pkg.impl'' @ nl
           @ ''Foo = pkg.impl.Foo'' @ nl)]"
  by (simp add: generator_defs header_def)

text \<open>
  Claim C1 asks that two declarations of one package that export the same name make the
  generation fail. The loop tests \<^verbatim>\<open>alias in declared_names\<close>, but no statement ever
  adds a name to \<^verbatim>\<open>declared_names\<close>: on the registry below, where \<^verbatim>\<open>pkg.a.Foo\<close> and
  \<^verbatim>\<open>pkg.b.Foo\<close> are both exported as \<^verbatim>\<open>Foo\<close> from \<^verbatim>\<open>pkg.sub\<close>, the generation
  succeeds and the file binds \<^verbatim>\<open>Foo\<close> twice, so the later binding wins.
\<close>

theorem collision_goes_undetected:
  "collect_managed [''repo'']
     [(''pkg.sub'',
       [(''pkg.a'', ''Foo'', \<lparr>as_alias = None, deprecated = False, available_until = None\<rparr>),
        (''pkg.b'', ''Foo'', \<lparr>as_alias = None, deprecated = False, available_until = None\<rparr>)])]
   = Inr [([''repo'', ''pkg'', ''sub'', ''__init__.py''],
           header
           @ ''import hopsworks.internal.aliases'' @ nl
           @ ''import pkg.a'' @ nl
           @ ''Foo = pkg.a.Foo'' @ nl
           @ ''import pkg.b'' @ nl
           @ ''Foo = pkg.b.Foo'' @ nl)]"
  by (simp add: generator_defs)

text \<open>
  Claim C3 asks for the line
  \<^verbatim>\<open>Foo = hopsworks.internal.aliases.deprecated(available_until="4.0")(pkg.impl.Foo)\<close>
  when the declaration is deprecated and available until \<^verbatim>\<open>4.0\<close>. The code tests
  \<^verbatim>\<open>im.available_until\<close> and then formats \<^verbatim>\<open>im.available.until\<close>: the generation
  ends with an \<^verbatim>\<open>AttributeError\<close> and produces no content at all.
\<close>

theorem deprecated_available_until_raises:
  "collect_managed [''repo'']
     [(''pkg.sub'',
       [(''pkg.impl'', ''Foo'',
         \<lparr>as_alias = None, deprecated = True, available_until = Some ''4.0''\<rparr>)])]
   = Inl AttributeError"
  by (simp add: generator_defs)

text \<open>The other half of the deprecation rule holds: without a value, the call is bare.\<close>

lemma deprecated_without_until:
  "collect_managed root
     [(''pkg.sub'',
       [(''pkg.impl'', ''Foo'',
         \<lparr>as_alias = None, deprecated = True, available_until = None\<rparr>)])]
   = Inr [(root @ [''pkg'', ''sub'', ''__init__.py''],
           header
           @ ''import hopsworks.internal.aliases'' @ nl
           @ ''import pkg.impl'' @ nl
           @ ''Foo = hopsworks.internal.aliases.deprecated()(pkg.impl.Foo)'' @ nl)]"
  by (simp add: generator_defs)

subsection \<open>Sorting\<close>

lemma and_then_simps [simp]:
  "and_then (Inl e) k = Inl e"
  "and_then (Inr v) k = k v"
  by (simp_all add: and_then_def)

lemma lt_entry_key:
  "lt_entry x y =
     (if key x \<noteq> key y then Inr (key x < key y)
      else if x = y then Inr False else Inl TypeError)"
  by (cases x; cases y) (auto simp: key_def less_prod_def)

lemma set_ins [simp]: "set (ins x ys) = insert x (set ys)"
  by (induction ys) auto

lemma mset_ins [simp]: "mset (ins x ys) = add_mset x (mset ys)"
  by (induction ys) auto

lemma sorted_ins: "sorted (map key ys) \<Longrightarrow> sorted (map key (ins x ys))"
  by (induction ys) auto

lemma insert_entry_ok:
  "\<forall>y\<in>set ys. key x = key y \<longrightarrow> x = y \<Longrightarrow> insert_entry x ys = Inr (ins x ys)"
  by (induction ys) (auto simp: lt_entry_key)

lemma insert_entry_fails:
  "sorted (map key ys) \<Longrightarrow> \<exists>y\<in>set ys. key x = key y \<and> x \<noteq> y \<Longrightarrow>
   insert_entry x ys = Inl TypeError"
proof (induction ys)
  case Nil
  then show ?case by simp
next
  case (Cons y ys)
  show ?case
  proof (cases "key x = key y")
    case True
    show ?thesis
    proof (cases "x = y")
      case False
      with True show ?thesis by (simp add: lt_entry_key)
    next
      case xy: True
      with Cons.prems(2) obtain z where "z \<in> set ys" "key x = key z" "x \<noteq> z"
        by auto
      moreover from Cons.prems(1) have "sorted (map key ys)"
        by simp
      ultimately have "insert_entry x ys = Inl TypeError"
        using Cons.IH by blast
      with xy show ?thesis by (simp add: lt_entry_key)
    qed
  next
    case False
    from Cons.prems False obtain z where z: "z \<in> set ys" "key x = key z" "x \<noteq> z"
      by auto
    from Cons.prems(1) z(1) have "key y \<le> key z"
      by auto
    with z(2) False have "\<not> key x < key y"
      by auto
    moreover from Cons.prems(1) have "sorted (map key ys)"
      by simp
    with Cons.IH z have "insert_entry x ys = Inl TypeError"
      by blast
    ultimately show ?thesis
      using False by (simp add: lt_entry_key)
  qed
qed

text \<open>
  The sort succeeds exactly on the lists free of clashes, and then sorts by key.
\<close>

lemma sort_into_eq:
  "sorted (map key acc) \<Longrightarrow> clash_free (set acc) \<Longrightarrow>
   sort_into acc xs =
     (if clash_free (set acc \<union> set xs) then Inr (fold ins xs acc) else Inl TypeError)"
proof (induction xs arbitrary: acc)
  case Nil
  then show ?case by simp
next
  case (Cons x xs)
  show ?case
  proof (cases "\<forall>y\<in>set acc. key x = key y \<longrightarrow> x = y")
    case True
    then have step: "insert_entry x acc = Inr (ins x acc)"
      by (rule insert_entry_ok)
    have cf: "clash_free (set (ins x acc))"
      using True Cons.prems(2) unfolding clash_free_def by auto
    have "sort_into (ins x acc) xs =
        (if clash_free (set (ins x acc) \<union> set xs) then Inr (fold ins xs (ins x acc))
         else Inl TypeError)"
      using Cons.IH [OF sorted_ins [OF Cons.prems(1)] cf] .
    then show ?thesis
      using step by (simp add: Un_commute insert_commute)
  next
    case False
    then have "insert_entry x acc = Inl TypeError"
      using insert_entry_fails [OF Cons.prems(1)] by metis
    moreover from False have "\<not> clash_free (set acc \<union> set (x # xs))"
      unfolding clash_free_def by auto
    ultimately show ?thesis
      by simp
  qed
qed

lemma sorted_fold_ins: "sorted (map key acc) \<Longrightarrow> sorted (map key (fold ins xs acc))"
  by (induction xs arbitrary: acc) (auto simp: sorted_ins)

lemma mset_fold_ins: "mset (fold ins xs acc) = mset xs + mset acc"
  by (induction xs arbitrary: acc) auto

lemma sort_entries_eq:
  "sort_entries xs =
     (if clash_free (set xs) then Inr (fold ins xs []) else Inl TypeError)"
  using sort_into_eq [of "[]" xs] by (simp add: sort_entries_def clash_free_def)

text \<open>
  A list free of clashes has one arrangement sorted by key.
\<close>

lemma sorted_key_unique:
  "sorted (map key a) \<Longrightarrow> sorted (map key b) \<Longrightarrow> mset a = mset b \<Longrightarrow>
   clash_free (set a) \<Longrightarrow> a = b"
proof (induction a arbitrary: b)
  case Nil
  then show ?case by simp
next
  case (Cons x a)
  then obtain y b' where b: "b = y # b'"
    by (cases b) auto
  have sets: "set (x # a) = set (y # b')"
    using Cons.prems(3) b by (metis mset_eq_setD)
  have "key x \<le> key y"
    using Cons.prems(1) sets by (cases "y = x") auto
  moreover have "key y \<le> key x"
    using Cons.prems(2) sets b by (cases "y = x") auto
  ultimately have "key x = key y"
    by simp
  moreover have "y \<in> set (x # a)"
    using sets by simp
  ultimately have xy: "x = y"
    using Cons.prems(4) unfolding clash_free_def by (metis list.set_intros(1))
  have "a = b'"
  proof (rule Cons.IH)
    show "sorted (map key a)" using Cons.prems(1) by simp
    show "sorted (map key b')" using Cons.prems(2) b by simp
    show "mset a = mset b'" using Cons.prems(3) b xy by simp
    show "clash_free (set a)" using Cons.prems(4) unfolding clash_free_def by simp
  qed
  with xy b show ?case by simp
qed

lemma sort_entries_mset:
  assumes "mset xs = mset ys"
  shows "sort_entries xs = sort_entries ys"
proof -
  have sets: "set xs = set ys"
    using assms by (rule mset_eq_setD)
  show ?thesis
  proof (cases "clash_free (set xs)")
    case True
    have "fold ins xs [] = fold ins ys []"
    proof (rule sorted_key_unique)
      show "sorted (map key (fold ins xs []))" by (simp add: sorted_fold_ins)
      show "sorted (map key (fold ins ys []))" by (simp add: sorted_fold_ins)
      show "mset (fold ins xs []) = mset (fold ins ys [])"
        using assms by (simp add: mset_fold_ins)
      show "clash_free (set (fold ins xs []))"
        using True by (metis mset_fold_ins add.right_neutral mset.simps(1) mset_eq_setD)
    qed
    with True sets show ?thesis
      by (simp add: sort_entries_eq)
  next
    case False
    with sets show ?thesis
      by (simp add: sort_entries_eq)
  qed
qed

subsection \<open>The content of a package\<close>

text \<open>
  With \<^verbatim>\<open>declared_names\<close> empty, the loop appends \<^const>\<open>emit_text\<close> to the entry of
  the package and touches no other entry.
\<close>

lemma dict_append_present:
  "map_of m k = Some c \<Longrightarrow> dict_append m k s = Inr (AList.update k (c @ s) m)"
  by (simp add: dict_append_def)

lemma emit_eq:
  "map_of m pkg = Some c \<Longrightarrow>
   emit pkg imported {} es m =
     and_then (emit_text imported es) (\<lambda>text. Inr (AList.update pkg (c @ text) m))"
proof (induction es arbitrary: imported m c)
  case Nil
  then show ?case by (simp add: update_triv)
next
  case (Cons e es)
  obtain f i im where e: "e = (f, i, im)"
    by (cases e) auto
  show ?case
  proof (cases "rhs_of im (f @ ''.'' @ i)")
    case (Inl err)
    then show ?thesis
      using Cons.prems e by (simp add: dict_append_present)
  next
    case (Inr original)
    show ?thesis
    proof (cases "f \<in> imported")
      case True
      then have ins: "insert f imported = imported"
        by auto
      have "map_of (AList.update pkg (c @ alias_of im i @ '' = '' @ original @ nl) m) pkg
          = Some (c @ alias_of im i @ '' = '' @ original @ nl)"
        by (simp add: update_conv')
      from Cons.IH [OF this, of imported] show ?thesis
        using Cons.prems e Inr True ins
        by (cases "emit_text imported es") (simp_all add: dict_append_present)
    next
      case False
      let ?m1 = "AList.update pkg (c @ ''import '' @ f @ nl) m"
      let ?c2 = "(c @ ''import '' @ f @ nl) @ alias_of im i @ '' = '' @ original @ nl"
      have m1: "map_of ?m1 pkg = Some (c @ ''import '' @ f @ nl)"
        by (simp add: update_conv')
      have "map_of (AList.update pkg ?c2 ?m1) pkg = Some ?c2"
        by (simp add: update_conv')
      from Cons.IH [OF this, of "insert f imported"] show ?thesis
        using Cons.prems e Inr False m1
        by (cases "emit_text (insert f imported) es") (simp_all add: dict_append_present)
    qed
  qed
qed

lemma collect_package_eq:
  "collect_package root m (pkg, imports) =
     and_then (render imports) (\<lambda>c. Inr (AList.update (managed_path root pkg) c m))"
proof (cases "imports = []")
  case True
  then show ?thesis
    by (simp add: collect_package_def render_def)
next
  case False
  let ?p = "managed_path root pkg"
  let ?m2 = "AList.update ?p (header @ ''import hopsworks.internal.aliases'' @ nl) m"
  have m1: "map_of (AList.update ?p header m) ?p = Some header"
    by (simp add: update_conv')
  have m2: "map_of ?m2 ?p = Some (header @ ''import hopsworks.internal.aliases'' @ nl)"
    by (simp add: update_conv')
  show ?thesis
  proof (cases "sort_entries imports")
    case (Inl e)
    with False m1 show ?thesis
      by (simp add: collect_package_def render_def Let_def dict_append_present)
  next
    case (Inr sorted)
    with False m1 emit_eq [OF m2, of "{''hopsworks.internal.aliases''}" sorted]
    show ?thesis
      by (cases "emit_text {''hopsworks.internal.aliases''} sorted")
         (simp_all add: collect_package_def render_def Let_def dict_append_present)
  qed
qed

lemma render_mset: "mset xs = mset ys \<Longrightarrow> render xs = render ys"
  using sort_entries_mset [of xs ys] by (auto simp: render_def)

lemma renders_iff: "renders (pkg, imps) \<longleftrightarrow> (\<exists>c. render imps = Inr c)"
  by (cases "render imps") (simp_all add: renders_def)

text \<open>
  The generation fails exactly when the content of some package cannot be rendered.
\<close>

lemma collect_loop_fails:
  "\<not> list_all renders reg \<Longrightarrow> \<exists>e. collect_loop root reg m = Inl e"
proof (induction reg arbitrary: m)
  case Nil
  then show ?case by simp
next
  case (Cons item reg)
  obtain pkg imps where item: "item = (pkg, imps)"
    by (cases item) auto
  show ?case
  proof (cases "render imps")
    case (Inl e)
    with item show ?thesis by (simp add: collect_package_eq)
  next
    case (Inr c)
    with item Cons.prems have "\<not> list_all renders reg"
      by (simp add: renders_iff)
    from Cons.IH [OF this] Inr item show ?thesis
      by (simp add: collect_package_eq)
  qed
qed

lemma collect_loop_succeeds:
  "list_all renders reg \<Longrightarrow> \<exists>m'. collect_loop root reg m = Inr m'"
proof (induction reg arbitrary: m)
  case Nil
  then show ?case by simp
next
  case (Cons item reg)
  obtain pkg imps where item: "item = (pkg, imps)"
    by (cases item) auto
  from Cons.prems item obtain c where c: "render imps = Inr c"
    by (auto simp: renders_iff)
  from Cons.prems have "list_all renders reg"
    by simp
  from Cons.IH [OF this] c item show ?case
    by (simp add: collect_package_eq)
qed

lemma collect_loop_keys:
  "collect_loop root reg m = Inr m' \<Longrightarrow>
   fst ` set m' = fst ` set m \<union> (\<lambda>item. managed_path root (fst item)) ` set reg"
proof (induction reg arbitrary: m)
  case Nil
  then show ?case by simp
next
  case (Cons item reg)
  obtain pkg imps where item: "item = (pkg, imps)"
    by (cases item) auto
  from Cons.prems item obtain c where c: "render imps = Inr c"
    by (cases "render imps") (auto simp: collect_package_eq)
  with Cons.prems item
  have "collect_loop root reg (AList.update (managed_path root pkg) c m) = Inr m'"
    by (simp add: collect_package_eq)
  from Cons.IH [OF this] item show ?case
    by (auto simp: dom_update)
qed

lemma collect_loop_distinct:
  "collect_loop root reg m = Inr m' \<Longrightarrow> distinct (map fst m) \<Longrightarrow> distinct (map fst m')"
proof (induction reg arbitrary: m)
  case Nil
  then show ?case by simp
next
  case (Cons item reg)
  obtain pkg imps where item: "item = (pkg, imps)"
    by (cases item) auto
  from Cons.prems item obtain c where c: "render imps = Inr c"
    by (cases "render imps") (auto simp: collect_package_eq)
  with Cons.prems item
  have "collect_loop root reg (AList.update (managed_path root pkg) c m) = Inr m'"
    by (simp add: collect_package_eq)
  moreover have "distinct (map fst (AList.update (managed_path root pkg) c m))"
    using Cons.prems(2) by (rule distinct_update)
  ultimately show ?case
    by (rule Cons.IH)
qed

lemma collect_managed_distinct:
  "collect_managed root reg = Inr m \<Longrightarrow> distinct (map fst m)"
  unfolding collect_managed_def by (erule collect_loop_distinct) simp

lemma collect_loop_other:
  "collect_loop root reg m = Inr m' \<Longrightarrow>
   p \<notin> (\<lambda>item. managed_path root (fst item)) ` set reg \<Longrightarrow> map_of m' p = map_of m p"
proof (induction reg arbitrary: m)
  case Nil
  then show ?case by simp
next
  case (Cons item reg)
  obtain pkg imps where item: "item = (pkg, imps)"
    by (cases item) auto
  from Cons.prems item obtain c where c: "render imps = Inr c"
    by (cases "render imps") (auto simp: collect_package_eq)
  with Cons.prems item
  have "collect_loop root reg (AList.update (managed_path root pkg) c m) = Inr m'"
    by (simp add: collect_package_eq)
  from Cons.IH [OF this] Cons.prems(2) item show ?case
    by (auto simp: update_conv')
qed

lemma collect_loop_content:
  "collect_loop root reg m = Inr m' \<Longrightarrow>
   distinct (map (\<lambda>item. managed_path root (fst item)) reg) \<Longrightarrow>
   (pkg, imports) \<in> set reg \<Longrightarrow>
   \<exists>c. render imports = Inr c \<and> map_of m' (managed_path root pkg) = Some c"
proof (induction reg arbitrary: m)
  case Nil
  then show ?case by simp
next
  case (Cons item reg)
  obtain pkg0 imps0 where item: "item = (pkg0, imps0)"
    by (cases item) auto
  from Cons.prems item obtain c where c: "render imps0 = Inr c"
    by (cases "render imps0") (auto simp: collect_package_eq)
  with Cons.prems item
  have rest: "collect_loop root reg (AList.update (managed_path root pkg0) c m) = Inr m'"
    by (simp add: collect_package_eq)
  show ?case
  proof (cases "(pkg, imports) \<in> set reg")
    case True
    from Cons.IH [OF rest _ True] Cons.prems(2) show ?thesis
      by simp
  next
    case False
    with Cons.prems(3) item have same: "pkg = pkg0" "imports = imps0"
      by auto
    from Cons.prems(2) item
    have "managed_path root pkg0 \<notin> (\<lambda>item. managed_path root (fst item)) ` set reg"
      by auto
    from collect_loop_other [OF rest this] c same show ?thesis
      by (simp add: update_conv')
  qed
qed

lemma is_managed_iff: "is_managed m p \<longleftrightarrow> p \<in> fst ` set m"
  by (simp add: is_managed_def map_of_eq_None_iff)

text \<open>
  The generation only ends with a \<^verbatim>\<open>TypeError\<close> of the sort or with the
  \<^verbatim>\<open>AttributeError\<close> of line 107: the branch that reports a collision is never
  taken.
\<close>

lemma rhs_of_error: "rhs_of im original = Inl e \<Longrightarrow> e = AttributeError"
  by (auto simp: rhs_of_def split: if_splits)

lemma emit_text_error: "emit_text imported es = Inl e \<Longrightarrow> e = AttributeError"
proof (induction es arbitrary: imported)
  case Nil
  then show ?case by simp
next
  case (Cons x es)
  obtain f i im where x: "x = (f, i, im)"
    by (cases x) auto
  show ?case
  proof (cases "rhs_of im (f @ ''.'' @ i)")
    case (Inl e')
    with Cons.prems x show ?thesis
      by (auto dest: rhs_of_error)
  next
    case (Inr original)
    with Cons.prems x have "emit_text (insert f imported) es = Inl e"
      by (cases "emit_text (insert f imported) es") auto
    then show ?thesis
      by (rule Cons.IH)
  qed
qed

lemma render_error: "render imps = Inl e \<Longrightarrow> e = TypeError \<or> e = AttributeError"
proof (cases "sort_entries imps")
  case (Inl e')
  assume "render imps = Inl e"
  with Inl show ?thesis
    by (auto simp: render_def sort_entries_eq split: if_splits)
next
  case (Inr sorted)
  assume "render imps = Inl e"
  with Inr have "emit_text {''hopsworks.internal.aliases''} sorted = Inl e"
    by (cases "emit_text {''hopsworks.internal.aliases''} sorted")
       (auto simp: render_def split: if_splits)
  then show ?thesis
    by (auto dest: emit_text_error)
qed

lemma collect_loop_error:
  "collect_loop root reg m = Inl e \<Longrightarrow> e = TypeError \<or> e = AttributeError"
proof (induction reg arbitrary: m)
  case Nil
  then show ?case by simp
next
  case (Cons item reg)
  obtain pkg imps where item: "item = (pkg, imps)"
    by (cases item) auto
  show ?case
  proof (cases "render imps")
    case (Inl e')
    with Cons.prems item show ?thesis
      by (auto simp: collect_package_eq dest: render_error)
  next
    case (Inr c)
    with Cons.prems item show ?thesis
      by (auto simp: collect_package_eq dest: Cons.IH)
  qed
qed

lemma generation_errors:
  "collect_managed root reg = Inl e \<Longrightarrow> e = TypeError \<or> e = AttributeError"
  unfolding collect_managed_def by (rule collect_loop_error)

lemma no_collision_reported:
  "collect_managed root reg \<noteq> Inl (AliasCollision original alias pkg)"
  using generation_errors [of root reg "AliasCollision original alias pkg"] by auto

text \<open>
  Plain names give plain contents.
\<close>

lemma header_plain: "CHR 0x0D \<notin> set header"
  by (simp add: header_def nl_def)

lemma alias_of_plain: "plain_entry (f, i, im) \<Longrightarrow> CHR 0x0D \<notin> set (alias_of im i)"
  by (auto simp: plain_entry_def alias_of_def split: option.splits)

lemma rhs_of_plain:
  "rhs_of im original = Inr s \<Longrightarrow> CHR 0x0D \<notin> set original \<Longrightarrow> CHR 0x0D \<notin> set s"
  by (auto simp: rhs_of_def split: if_splits)

lemma emit_text_plain:
  "emit_text imported es = Inr s \<Longrightarrow> list_all plain_entry es \<Longrightarrow> CHR 0x0D \<notin> set s"
proof (induction es arbitrary: imported s)
  case Nil
  then show ?case by simp
next
  case (Cons e es)
  obtain f i im where e: "e = (f, i, im)"
    by (cases e) auto
  from Cons.prems(1) e obtain original rest where o: "rhs_of im (f @ ''.'' @ i) = Inr original"
    and r: "emit_text (insert f imported) es = Inr rest"
    and s: "s = (if f \<notin> imported then ''import '' @ f @ nl else [])
            @ alias_of im i @ '' = '' @ original @ nl @ rest"
    by (cases "rhs_of im (f @ ''.'' @ i)"; cases "emit_text (insert f imported) es") auto
  from Cons.prems(2) e have pe: "plain_entry (f, i, im)" and pes: "list_all plain_entry es"
    by simp_all
  from pe have fi: "CHR 0x0D \<notin> set f" "CHR 0x0D \<notin> set i"
    by (simp_all add: plain_entry_def)
  then have "CHR 0x0D \<notin> set original"
    using rhs_of_plain [OF o] by simp
  moreover have "CHR 0x0D \<notin> set rest"
    using Cons.IH [OF r pes] .
  ultimately show ?case
    using s fi alias_of_plain [OF pe] by (simp add: nl_def)
qed

lemma render_plain:
  assumes "render imps = Inr c" "list_all plain_entry imps"
  shows "CHR 0x0D \<notin> set c"
proof (cases "imps = []")
  case True
  with assms(1) show ?thesis
    by (auto simp: render_def header_plain)
next
  case False
  with assms(1) obtain sorted rest where s: "sort_entries imps = Inr sorted"
    and r: "emit_text {''hopsworks.internal.aliases''} sorted = Inr rest"
    and c: "c = header @ ''import hopsworks.internal.aliases'' @ nl @ rest"
    by (cases "sort_entries imps"; cases "emit_text {''hopsworks.internal.aliases''} (projr (sort_entries imps))")
       (auto simp: render_def)
  from s have "mset sorted = mset imps"
    by (auto simp: sort_entries_eq mset_fold_ins split: if_splits)
  then have "set sorted = set imps"
    by (rule mset_eq_setD)
  with assms(2) have "list_all plain_entry sorted"
    by (simp add: list_all_iff)
  from emit_text_plain [OF r this] c show ?thesis
    by (simp add: header_plain nl_def)
qed

lemma set_update_subset: "set (AList.update k v al) \<subseteq> insert (k, v) (set al)"
  by (induction al) auto

lemma collect_loop_plain:
  "collect_loop root reg m0 = Inr m \<Longrightarrow> plain_registry reg \<Longrightarrow> no_carriage_return m0 \<Longrightarrow>
   no_carriage_return m"
proof (induction reg arbitrary: m0)
  case Nil
  then show ?case by simp
next
  case (Cons item reg)
  obtain pkg imps where item: "item = (pkg, imps)"
    by (cases item) auto
  from Cons.prems(1) item obtain c where c: "render imps = Inr c"
    and rest: "collect_loop root reg (AList.update (managed_path root pkg) c m0) = Inr m"
    by (cases "render imps") (auto simp: collect_package_eq)
  from Cons.prems(2) item have "list_all plain_entry imps" "plain_registry reg"
    by (simp_all add: plain_registry_def)
  with render_plain [OF c] have "CHR 0x0D \<notin> set c"
    by simp
  with Cons.prems(3) have "no_carriage_return (AList.update (managed_path root pkg) c m0)"
    using set_update_subset [of "managed_path root pkg" c m0]
    by (auto simp: no_carriage_return_def list_all_iff)
  from Cons.IH [OF rest \<open>plain_registry reg\<close> this] show ?case .
qed

lemma plain_registry_contents:
  "collect_managed root reg = Inr m \<Longrightarrow> plain_registry reg \<Longrightarrow> no_carriage_return m"
  unfolding collect_managed_def
  by (erule collect_loop_plain) (simp_all add: no_carriage_return_def)

subsection \<open>Package names and file paths\<close>

lemma split_slash_nonempty [simp]: "split_slash s \<noteq> []"
  by (induction s) (auto split: list.splits)

lemma join_split_slash: "join_slash (split_slash s) = s"
proof (induction s)
  case Nil
  then show ?case by simp
next
  case (Cons c s)
  obtain w ws where sp: "split_slash s = w # ws"
    by (cases "split_slash s") auto
  with Cons show ?case
    by (cases ws) auto
qed

lemma split_slash_no_dot:
  "CHR ''.'' \<notin> set s \<Longrightarrow> w \<in> set (split_slash s) \<Longrightarrow> CHR ''.'' \<notin> set w"
  by (induction s arbitrary: w) (auto split: if_splits list.splits)

lemma no_dot_replace_dots: "CHR ''.'' \<notin> set (replace_dots s)"
  by (auto simp: replace_dots_def)

lemma replace_dots_inj:
  "CHR ''/'' \<notin> set a \<Longrightarrow> CHR ''/'' \<notin> set b \<Longrightarrow> replace_dots a = replace_dots b \<Longrightarrow> a = b"
proof (induction a arbitrary: b)
  case Nil
  then show ?case by (simp add: replace_dots_def)
next
  case (Cons x a)
  then obtain y b' where b: "b = y # b'"
    by (cases b) (auto simp: replace_dots_def)
  with Cons.prems have "x = y"
    by (auto simp: replace_dots_def split: if_splits)
  moreover from Cons.prems b have "a = b'"
    by (intro Cons.IH) (auto simp: replace_dots_def)
  ultimately show ?case
    using b by simp
qed

lemma parts_wf: "wf_name s \<Longrightarrow> parts (replace_dots s) = split_slash (replace_dots s)"
proof -
  assume wf: "wf_name s"
  have "\<forall>w\<in>set (split_slash (replace_dots s)). w \<noteq> [] \<and> w \<noteq> ''.''"
    using wf split_slash_no_dot [OF no_dot_replace_dots, of _ s]
    by (fastforce simp: wf_name_def)
  then show ?thesis
    by (simp add: parts_def)
qed

lemma join_init: "join base ''__init__.py'' = base @ [''__init__.py'']"
  by (simp add: join_def parts_def)

lemma managed_path_wf:
  assumes "wf_name s"
  shows "managed_path root s = root @ split_slash (replace_dots s) @ [''__init__.py'']"
proof -
  obtain c cs where t: "replace_dots s = c # cs"
    using assms by (cases "replace_dots s") (auto simp: wf_name_def)
  have "c \<noteq> CHR ''/''"
    using assms t by (auto simp: wf_name_def)
  then have "join root (replace_dots s) = root @ parts (replace_dots s)"
    using t by (simp add: join_def)
  then show ?thesis
    using assms by (simp add: managed_path_def join_init parts_wf)
qed

text \<open>
  Different packages of a well-formed registry own different files.
\<close>

lemma managed_path_inj:
  assumes "wf_name a" "wf_name b" "managed_path root a = managed_path root b"
  shows "a = b"
proof -
  from assms have "split_slash (replace_dots a) = split_slash (replace_dots b)"
    by (simp add: managed_path_wf)
  then have "join_slash (split_slash (replace_dots a)) = join_slash (split_slash (replace_dots b))"
    by simp
  then have "replace_dots a = replace_dots b"
    by (simp add: join_split_slash)
  with assms(1,2) show ?thesis
    by (auto simp: wf_name_def intro: replace_dots_inj)
qed

lemma wf_registry_files:
  assumes "wf_registry reg"
  shows "distinct (map (\<lambda>item. managed_path root (fst item)) reg)"
proof -
  have "inj_on (managed_path root) (set (map fst reg))"
    using assms by (auto simp: wf_registry_def list_all_iff inj_on_def intro: managed_path_inj)
  moreover have "distinct (map fst reg)"
    using assms by (simp add: wf_registry_def)
  ultimately have "distinct (map (managed_path root) (map fst reg))"
    by (subst distinct_map) blast
  then show ?thesis
    by (simp add: comp_def)
qed

subsection \<open>Determinism\<close>

lemma same_declarations_entry:
  assumes "distinct (map fst r1)" "distinct (map fst r2)"
    and same: "\<And>pkg. map_option mset (map_of r1 pkg) = map_option mset (map_of r2 pkg)"
    and mem: "(pkg, imps1) \<in> set r1"
  shows "\<exists>imps2. (pkg, imps2) \<in> set r2 \<and> mset imps1 = mset imps2"
proof -
  from mem assms(1) have "map_of r1 pkg = Some imps1"
    by simp
  with same [of pkg] obtain imps2 where "map_of r2 pkg = Some imps2" "mset imps1 = mset imps2"
    by (cases "map_of r2 pkg") auto
  then show ?thesis
    by (auto dest: map_of_SomeD)
qed

lemma same_declarations_renders:
  assumes "distinct (map fst r1)" "distinct (map fst r2)"
    and same: "\<And>pkg. map_option mset (map_of r1 pkg) = map_option mset (map_of r2 pkg)"
    and ok: "list_all renders r2"
  shows "list_all renders r1"
proof -
  have "renders item" if "item \<in> set r1" for item
  proof -
    obtain pkg imps1 where item: "item = (pkg, imps1)"
      by (cases item) auto
    with that same_declarations_entry [OF assms(1,2) same, of pkg imps1]
    obtain imps2 where imps2: "(pkg, imps2) \<in> set r2" "mset imps1 = mset imps2"
      by auto
    from ok imps2(1) have "renders (pkg, imps2)"
      by (auto simp: list_all_iff)
    with imps2(2) item show ?thesis
      by (simp add: renders_iff render_mset [of imps1 imps2])
  qed
  then show ?thesis
    by (simp add: list_all_iff)
qed

lemma same_declarations_maps:
  assumes wf: "wf_registry r1" "wf_registry r2"
    and same: "\<And>pkg. map_option mset (map_of r1 pkg) = map_option mset (map_of r2 pkg)"
    and m1: "collect_managed root r1 = Inr m1"
    and m2: "collect_managed root r2 = Inr m2"
  shows "map_of m1 p = map_of m2 p"
proof -
  let ?files = "\<lambda>reg. (\<lambda>item. managed_path root (fst item)) ` set reg"
  have d: "distinct (map fst r1)" "distinct (map fst r2)"
    using wf by (simp_all add: wf_registry_def)
  have sym: "\<And>pkg. map_option mset (map_of r2 pkg) = map_option mset (map_of r1 pkg)"
    using same by simp
  show ?thesis
  proof (cases "p \<in> ?files r1")
    case True
    then obtain pkg imps1 where e1: "(pkg, imps1) \<in> set r1" "p = managed_path root pkg"
      by auto
    with same_declarations_entry [OF d same] obtain imps2
      where e2: "(pkg, imps2) \<in> set r2" "mset imps1 = mset imps2"
      by blast
    from collect_loop_content [OF m1 [unfolded collect_managed_def] wf_registry_files [OF wf(1)] e1(1)]
    obtain c1 where c1: "render imps1 = Inr c1" "map_of m1 p = Some c1"
      using e1(2) by auto
    from collect_loop_content [OF m2 [unfolded collect_managed_def] wf_registry_files [OF wf(2)] e2(1)]
    obtain c2 where c2: "render imps2 = Inr c2" "map_of m2 p = Some c2"
      using e1(2) by auto
    from c1 c2 render_mset [OF e2(2)] show ?thesis
      by simp
  next
    case False
    have "p \<notin> ?files r2"
    proof
      assume "p \<in> ?files r2"
      then obtain pkg imps2 where e2: "(pkg, imps2) \<in> set r2" "p = managed_path root pkg"
        by auto
      with same_declarations_entry [OF d(2,1) sym] obtain imps1 where "(pkg, imps1) \<in> set r1"
        by blast
      with e2(2) False show False
        by force
    qed
    with False collect_loop_other [OF m1 [unfolded collect_managed_def]]
      collect_loop_other [OF m2 [unfolded collect_managed_def]]
    show ?thesis
      by simp
  qed
qed

text \<open>
  Claim C4. Two registries that hold, for every destination package, the same
  declarations, possibly inserted in another order (and with the packages themselves in
  another order), generate the same content for every file: either both generations
  fail, or both succeed and the two mappings from path to content are equal.
\<close>

theorem generator_deterministic:
  assumes "wf_registry r1" "wf_registry r2"
    and "\<forall>pkg. map_option mset (map_of r1 pkg) = map_option mset (map_of r2 pkg)"
  shows "(case collect_managed root r1 of
            Inl e1 \<Rightarrow> (case collect_managed root r2 of Inl e2 \<Rightarrow> True | Inr m2 \<Rightarrow> False)
          | Inr m1 \<Rightarrow> (case collect_managed root r2 of Inl e2 \<Rightarrow> False | Inr m2 \<Rightarrow> map_of m1 = map_of m2))"
proof -
  have same: "\<And>pkg. map_option mset (map_of r1 pkg) = map_option mset (map_of r2 pkg)"
    using assms(3) by simp
  have sym: "\<And>pkg. map_option mset (map_of r2 pkg) = map_option mset (map_of r1 pkg)"
    using assms(3) by simp
  have d: "distinct (map fst r1)" "distinct (map fst r2)"
    using assms(1,2) by (simp_all add: wf_registry_def)
  show ?thesis
  proof (cases "list_all renders r1")
    case True
    with same_declarations_renders [OF d(2,1) sym] have "list_all renders r2"
      by simp
    with True collect_loop_succeeds [of r1 root "[]"] collect_loop_succeeds [of r2 root "[]"]
    obtain m1 m2 where m: "collect_managed root r1 = Inr m1" "collect_managed root r2 = Inr m2"
      by (auto simp: collect_managed_def)
    have "map_of m1 = map_of m2"
      using same_declarations_maps [OF assms(1,2) same m] by (rule ext)
    with m show ?thesis
      by simp
  next
    case False
    with same_declarations_renders [OF d same] have "\<not> list_all renders r2"
      by blast
    with False collect_loop_fails [of r1 root "[]"] collect_loop_fails [of r2 root "[]"]
    show ?thesis
      by (auto simp: collect_managed_def)
  qed
qed

theorem generator_deterministic_witness:
  "collect_managed [''repo'']
     [(''a'', [(''m.x'', ''X'', plain), (''m.y'', ''Y'', plain)]), (''b'', [])]
   = Inr [([''repo'', ''a'', ''__init__.py''],
           header @ ''import hopsworks.internal.aliases'' @ nl
           @ ''import m.x'' @ nl @ ''X = m.x.X'' @ nl
           @ ''import m.y'' @ nl @ ''Y = m.y.Y'' @ nl),
          ([''repo'', ''b'', ''__init__.py''], header)]
   \<and> collect_managed [''repo'']
     [(''b'', []), (''a'', [(''m.y'', ''Y'', plain), (''m.x'', ''X'', plain)])]
   = Inr [([''repo'', ''b'', ''__init__.py''], header),
          ([''repo'', ''a'', ''__init__.py''],
           header @ ''import hopsworks.internal.aliases'' @ nl
           @ ''import m.x'' @ nl @ ''X = m.x.X'' @ nl
           @ ''import m.y'' @ nl @ ''Y = m.y.Y'' @ nl)]
   \<and> map_of [([''repo'', ''a'', ''__init__.py''],
           header @ ''import hopsworks.internal.aliases'' @ nl
           @ ''import m.x'' @ nl @ ''X = m.x.X'' @ nl
           @ ''import m.y'' @ nl @ ''Y = m.y.Y'' @ nl),
          ([''repo'', ''b'', ''__init__.py''], header)]
     = map_of [([''repo'', ''b'', ''__init__.py''], header),
          ([''repo'', ''a'', ''__init__.py''],
           header @ ''import hopsworks.internal.aliases'' @ nl
           @ ''import m.x'' @ nl @ ''X = m.x.X'' @ nl
           @ ''import m.y'' @ nl @ ''Y = m.y.Y'' @ nl)]"
proof -
  let ?r1 = "[(''a'', [(''m.x'', ''X'', plain), (''m.y'', ''Y'', plain)]), (''b'', [])]"
  let ?r2 = "[(''b'', []), (''a'', [(''m.y'', ''Y'', plain), (''m.x'', ''X'', plain)])]"
  have w1: "wf_registry ?r1" and w2: "wf_registry ?r2"
    by (simp_all add: wf_registry_def wf_name_def replace_dots_def)
  have same: "\<forall>pkg. map_option mset (map_of ?r1 pkg) = map_option mset (map_of ?r2 pkg)"
    by simp
  have c1: "collect_managed [''repo''] ?r1
     = Inr [([''repo'', ''a'', ''__init__.py''],
           header @ ''import hopsworks.internal.aliases'' @ nl
           @ ''import m.x'' @ nl @ ''X = m.x.X'' @ nl
           @ ''import m.y'' @ nl @ ''Y = m.y.Y'' @ nl),
          ([''repo'', ''b'', ''__init__.py''], header)]"
    by (simp add: generator_defs plain_def)
  have c2: "collect_managed [''repo''] ?r2
     = Inr [([''repo'', ''b'', ''__init__.py''], header),
          ([''repo'', ''a'', ''__init__.py''],
           header @ ''import hopsworks.internal.aliases'' @ nl
           @ ''import m.x'' @ nl @ ''X = m.x.X'' @ nl
           @ ''import m.y'' @ nl @ ''Y = m.y.Y'' @ nl)]"
    by (simp add: generator_defs plain_def)
  from generator_deterministic [OF w1 w2 same, of "[''repo'']"] c1 c2 show ?thesis
    by simp
qed



subsection \<open>Lookups, directories and the walk\<close>

declare mkdir_parents.simps [simp del]

declare traverse.simps [simp del]

lemma lookup_root [simp]: "lookup t [] = Some Dir"
  by (simp add: lookup_def)

lemma lookup_update:
  "k \<noteq> [] \<Longrightarrow> lookup (AList.update k v t) p = (if p = k then Some v else lookup t p)"
  by (simp add: lookup_def update_conv')

lemma lookup_None_nonempty: "lookup t p = None \<Longrightarrow> p \<noteq> []"
  by (auto simp: lookup_def)

lemma lookup_File_nonempty: "lookup t p = Some (File c) \<Longrightarrow> p \<noteq> []"
  by (auto simp: lookup_def)

lemma lookup_keys: "p \<noteq> [] \<Longrightarrow> lookup t p \<noteq> None \<longleftrightarrow> p \<in> fst ` set t"
  by (simp add: lookup_def map_of_eq_None_iff)

lemma is_file_iff: "is_file t p \<longleftrightarrow> (\<exists>c. lookup t p = Some (File c))"
  by (auto simp: is_file_def split: option.splits node.splits)

text \<open>
  Creating directories only adds directories where nothing was.
\<close>

lemma mkdir_parents_present: "lookup t d = Some Dir \<Longrightarrow> mkdir_parents t d = Inr t"
  by (simp add: mkdir_parents.simps)

lemma mkdir_parents_grows:
  "mkdir_parents t d = Inr t' \<Longrightarrow>
   lookup t' q = lookup t q \<or> (lookup t q = None \<and> lookup t' q = Some Dir)"
proof (induction t d arbitrary: t' rule: mkdir_parents.induct)
  case (1 t d)
  show ?case
  proof (cases "lookup t d")
    case None
    then have d: "d \<noteq> []"
      by (rule lookup_None_nonempty)
    show ?thesis
    proof (cases "lookup t (parent d)")
      case pn: None
      with None "1.prems" obtain t1 where t1: "mkdir_parents t (parent d) = Inr t1"
        and t': "t' = AList.update d Dir t1"
        by (cases "mkdir_parents t (parent d)") (auto simp: mkdir_parents.simps [of t d])
      from "1.IH" [OF None pn t1]
      have "lookup t1 q = lookup t q \<or> (lookup t q = None \<and> lookup t1 q = Some Dir)" .
      with None d t' show ?thesis
        by (auto simp: lookup_update)
    next
      case (Some n)
      with None "1.prems" d show ?thesis
        by (cases n) (auto simp: mkdir_parents.simps [of t d] lookup_update split: if_splits)
    qed
  next
    case (Some n)
    with "1.prems" show ?thesis
      by (cases n) (auto simp: mkdir_parents.simps [of t d])
  qed
qed

lemma mkdir_parents_made:
  "mkdir_parents t d = Inr t' \<Longrightarrow> lookup t' d = Some Dir"
proof (cases "lookup t d")
  case None
  assume ok: "mkdir_parents t d = Inr t'"
  from None have d: "d \<noteq> []"
    by (rule lookup_None_nonempty)
  show ?thesis
  proof (cases "lookup t (parent d)")
    case pn: None
    with None ok obtain t1 where "t' = AList.update d Dir t1"
      by (cases "mkdir_parents t (parent d)") (auto simp: mkdir_parents.simps [of t d])
    with d show ?thesis
      by (simp add: lookup_update)
  next
    case (Some n)
    with None ok d show ?thesis
      by (cases n) (auto simp: mkdir_parents.simps [of t d] lookup_update)
  qed
next
  case (Some n)
  assume "mkdir_parents t d = Inr t'"
  with Some show ?thesis
    by (cases n) (auto simp: mkdir_parents.simps [of t d])
qed

text \<open>
  The walk calls its callback exactly on the files it reaches.
\<close>

lemma iterdir_iff: "q \<in> set (iterdir t d) \<longleftrightarrow> (\<exists>x. q = d @ [x]) \<and> q \<in> fst ` set t"
proof -
  have "q \<noteq> [] \<and> butlast q = d \<longleftrightarrow> (\<exists>x. q = d @ [x])"
    by (cases q rule: rev_cases) auto
  then show ?thesis
    by (auto simp: iterdir_def parent_def)
qed

lemma visits_step:
  assumes dir: "lookup t r = Some Dir"
  shows "visits t r p \<longleftrightarrow> (\<exists>q\<in>set (iterdir t r). visits t q p)"
proof
  assume v: "visits t r p"
  then obtain c where c: "lookup t p = Some (File c)"
    by (auto simp: visits_def is_file_iff)
  with dir have "p \<noteq> r"
    by auto
  with v obtain x xs where p: "p = r @ x # xs"
    by (auto simp: visits_def prefix_def) (metis list.exhaust)
  let ?q = "r @ [x]"
  have "lookup t ?q \<noteq> None"
  proof (cases "xs = []")
    case True
    with p c show ?thesis by simp
  next
    case False
    with p have "strict_prefix ?q p"
      by (auto simp: strict_prefix_def prefix_def)
    with v have "lookup t ?q = Some Dir"
      by (auto simp: visits_def)
    then show ?thesis by simp
  qed
  then have "?q \<in> set (iterdir t r)"
    by (auto simp: iterdir_iff lookup_keys [symmetric])
  moreover have "visits t ?q p"
    using v p by (auto simp: visits_def dest: append_prefixD)
  ultimately show "\<exists>q\<in>set (iterdir t r). visits t q p"
    by blast
next
  assume "\<exists>q\<in>set (iterdir t r). visits t q p"
  then obtain x where x: "visits t (r @ [x]) p"
    by (auto simp: iterdir_iff)
  have "lookup t q = Some Dir" if q: "prefix r q" "strict_prefix q p" for q
  proof (cases "q = r")
    case True
    with dir show ?thesis by simp
  next
    case False
    with q(1) obtain y ys where qy: "q = r @ y # ys"
      by (auto simp: prefix_def) (metis list.exhaust)
    from x have "prefix (r @ [x]) p"
      by (simp add: visits_def)
    with q(2) qy have "y = x"
      by (auto simp: prefix_def strict_prefix_def)
    with qy have "prefix (r @ [x]) q"
      by (simp add: prefix_def)
    with x q(2) show ?thesis
      by (auto simp: visits_def)
  qed
  with x show "visits t r p"
    by (auto simp: visits_def intro: prefix_order.trans [of r "r @ [x]"])
qed

lemma set_traverse: "p \<in> set (traverse t r) \<longleftrightarrow> visits t r p"
proof (induction t r rule: traverse.induct)
  case (1 t r)
  show ?case
  proof (cases "lookup t r")
    case None
    have "\<not> visits t r p"
    proof
      assume v: "visits t r p"
      show False
      proof (cases "p = r")
        case True
        with v None show False by (auto simp: visits_def is_file_iff)
      next
        case False
        with v have "strict_prefix r p" by (auto simp: visits_def)
        with v None show False by (auto simp: visits_def)
      qed
    qed
    with None show ?thesis
      by (simp add: traverse.simps [of t r])
  next
    case (Some n)
    show ?thesis
    proof (cases n)
      case (File c)
      have "visits t r p \<longleftrightarrow> p = r"
      proof
        assume v: "visits t r p"
        show "p = r"
        proof (rule ccontr)
          assume "p \<noteq> r"
          with v have "strict_prefix r p" by (auto simp: visits_def)
          with v Some File show False by (auto simp: visits_def)
        qed
      next
        assume "p = r"
        with Some File show "visits t r p"
          by (auto simp: visits_def is_file_iff)
      qed
      with Some File show ?thesis
        by (simp add: traverse.simps [of t r])
    next
      case Dir
      with Some have dir: "lookup t r = Some Dir"
        by simp
      have "p \<in> set (traverse t r) \<longleftrightarrow> (\<exists>q\<in>set (iterdir t r). p \<in> set (traverse t q))"
        using dir by (simp add: traverse.simps [of t r])
      also have "\<dots> \<longleftrightarrow> (\<exists>q\<in>set (iterdir t r). visits t q p)"
        using "1.IH" [OF dir] by blast
      also have "\<dots> \<longleftrightarrow> visits t r p"
        using visits_step [OF dir] by simp
      finally show ?thesis .
    qed
  qed
qed

lemma visits_mono:
  assumes "visits t' r p" and "\<And>q v. lookup t' q = Some v \<Longrightarrow> lookup t q = Some v"
  shows "visits t r p"
  using assms unfolding visits_def is_file_iff by blast

subsection \<open>Writing the managed files\<close>

lemma touch_cases:
  "touch t p = t \<and> lookup t p \<noteq> None \<or>
   lookup t p = None \<and> touch t p = AList.update p (File []) t"
  by (cases "lookup t p") (auto simp: touch_def)

lemma lookup_touch:
  "lookup (touch t p) q = (if q = p \<and> lookup t p = None then Some (File []) else lookup t q)"
  by (cases "lookup t p") (auto simp: touch_def lookup_update dest: lookup_None_nonempty)

lemma write_text_ok:
  "write_text t p c = Inr t' \<Longrightarrow>
   lookup t p \<noteq> Some Dir \<and> p \<noteq> [] \<and> t' = AList.update p (File c) t"
  by (cases "lookup t p"; cases "the (lookup t p)")
     (auto simp: write_text_def lookup_def split: if_splits)

lemma write_text_fails:
  "write_text t p c = Inl e \<Longrightarrow> lookup t p = Some Dir \<and> e = IsADirectoryError"
  by (auto simp: write_text_def split: option.splits node.splits)

lemma write_one_settled:
  assumes "settled t item"
  shows "write_one t item = (None, t)"
proof -
  obtain p c where item: "item = (p, c)"
    by (cases item) auto
  with assms have f: "lookup t p = Some (File c)" and d: "lookup t (parent p) = Some Dir"
    by (simp_all add: settled_def)
  from f have "p \<noteq> []"
    by (rule lookup_File_nonempty)
  with f have "map_of t p = Some (File c)"
    by (simp add: lookup_def)
  then have "AList.update p (File c) t = t"
    by (rule update_triv)
  with f d item show ?thesis
    by (simp add: write_one_def mkdir_parents_present touch_def write_text_def)
qed

lemma write_one_result:
  assumes "write_one t (p, c) = (r, t')"
  shows "lookup t' q = lookup t q
         \<or> (lookup t q = None \<and> lookup t' q = Some Dir)
         \<or> (q = p \<and> lookup t q \<noteq> Some Dir \<and> (\<exists>c'. lookup t' q = Some (File c')))"
proof (cases "mkdir_parents t (parent p)")
  case (Inl e)
  with assms show ?thesis
    by (simp add: write_one_def)
next
  case (Inr t1)
  have g: "lookup t1 q = lookup t q \<or> (lookup t q = None \<and> lookup t1 q = Some Dir)"
    using mkdir_parents_grows [OF Inr] .
  show ?thesis
  proof (cases "write_text (touch t1 p) p c")
    case (Inl e)
    with assms Inr have t': "t' = touch t1 p"
      by (simp add: write_one_def)
    from Inl have "lookup (touch t1 p) p = Some Dir"
      by (auto dest: write_text_fails)
    then have "lookup t1 p \<noteq> None"
      by (auto simp: lookup_touch split: if_splits)
    then have "touch t1 p = t1"
      using touch_cases [of t1 p] by auto
    with t' g show ?thesis
      by auto
  next
    case w: (Inr t3)
    with assms Inr have t': "t' = t3"
      by (simp add: write_one_def)
    from write_text_ok [OF w] have nd: "lookup (touch t1 p) p \<noteq> Some Dir" and p: "p \<noteq> []"
      and t3: "t3 = AList.update p (File c) (touch t1 p)"
      by simp_all
    show ?thesis
    proof (cases "q = p")
      case True
      from nd have "lookup t1 p \<noteq> Some Dir"
        by (auto simp: lookup_touch split: if_splits)
      with g True have "lookup t p \<noteq> Some Dir"
        by auto
      with True t' t3 p show ?thesis
        by (simp add: lookup_update)
    next
      case False
      with t' t3 p have "lookup t' q = lookup t1 q"
        by (simp add: lookup_update lookup_touch)
      with g show ?thesis
        by auto
    qed
  qed
qed

lemma write_one_keeps_dir:
  "write_one t item = (r, t') \<Longrightarrow> lookup t q = Some Dir \<Longrightarrow> lookup t' q = Some Dir"
  using write_one_result [of t "fst item" "snd item" r t' q] by auto

lemma write_one_keeps_file:
  "write_one t item = (r, t') \<Longrightarrow> q \<noteq> fst item \<Longrightarrow> lookup t q = Some (File c) \<Longrightarrow>
   lookup t' q = Some (File c)"
  using write_one_result [of t "fst item" "snd item" r t' q] by auto

lemma write_one_is_file:
  "write_one t item = (r, t') \<Longrightarrow> is_file t q \<Longrightarrow> is_file t' q"
  using write_one_result [of t "fst item" "snd item" r t' q] by (auto simp: is_file_iff)

lemma write_one_done:
  assumes "write_one t item = (None, t')"
  shows "settled t' item"
proof -
  obtain p c where item: "item = (p, c)"
    by (cases item) auto
  from assms item obtain t1 where m: "mkdir_parents t (parent p) = Inr t1"
    by (cases "mkdir_parents t (parent p)") (auto simp: write_one_def)
  with assms item obtain t3 where w: "write_text (touch t1 p) p c = Inr t3" and t': "t' = t3"
    by (cases "write_text (touch t1 p) p c") (auto simp: write_one_def)
  from write_text_ok [OF w] have p: "p \<noteq> []" and t3: "t3 = AList.update p (File c) (touch t1 p)"
    by simp_all
  from p have pp: "parent p \<noteq> p"
    by (cases p rule: rev_cases) (auto simp: parent_def)
  have "lookup t1 (parent p) = Some Dir"
    using m by (rule mkdir_parents_made)
  with pp p t' t3 item show ?thesis
    by (simp add: settled_def lookup_update lookup_touch)
qed

lemma write_one_fails_again:
  assumes "write_one t item = (Some e, t')"
  shows "write_one t' item = (Some e, t')"
proof -
  obtain p c where item: "item = (p, c)"
    by (cases item) auto
  show ?thesis
  proof (cases "mkdir_parents t (parent p)")
    case (Inl e')
    with assms item show ?thesis
      by (auto simp: write_one_def)
  next
    case (Inr t1)
    with assms item obtain e' where w: "write_text (touch t1 p) p c = Inl e'"
      and t': "t' = touch t1 p" and e: "e = e'"
      by (cases "write_text (touch t1 p) p c") (auto simp: write_one_def)
    from w have "lookup (touch t1 p) p = Some Dir"
      by (auto dest: write_text_fails)
    then have "lookup t1 p \<noteq> None"
      by (auto simp: lookup_touch split: if_splits)
    then have same: "touch t1 p = t1"
      using touch_cases [of t1 p] by auto
    have "lookup t1 (parent p) = Some Dir"
      using Inr by (rule mkdir_parents_made)
    then have "mkdir_parents t1 (parent p) = Inr t1"
      by (rule mkdir_parents_present)
    with same w t' e item show ?thesis
      by (simp add: write_one_def)
  qed
qed

lemma write_all_keeps_dir:
  "write_all m t = (r, t') \<Longrightarrow> lookup t q = Some Dir \<Longrightarrow> lookup t' q = Some Dir"
proof (induction m arbitrary: t)
  case Nil
  then show ?case by simp
next
  case (Cons item m)
  obtain r1 t1 where w: "write_one t item = (r1, t1)"
    by (cases "write_one t item") auto
  from write_one_keeps_dir [OF w Cons.prems(2)] have d: "lookup t1 q = Some Dir" .
  show ?case
  proof (cases r1)
    case None
    with w Cons.prems(1) have "write_all m t1 = (r, t')" by simp
    from Cons.IH [OF this d] show ?thesis .
  next
    case (Some e)
    with w Cons.prems(1) d show ?thesis by simp
  qed
qed

lemma write_all_is_file:
  "write_all m t = (r, t') \<Longrightarrow> is_file t q \<Longrightarrow> is_file t' q"
proof (induction m arbitrary: t)
  case Nil
  then show ?case by simp
next
  case (Cons item m)
  obtain r1 t1 where w: "write_one t item = (r1, t1)"
    by (cases "write_one t item") auto
  from write_one_is_file [OF w Cons.prems(2)] have d: "is_file t1 q" .
  show ?case
  proof (cases r1)
    case None
    with w Cons.prems(1) have "write_all m t1 = (r, t')" by simp
    from Cons.IH [OF this d] show ?thesis .
  next
    case (Some e)
    with w Cons.prems(1) d show ?thesis by simp
  qed
qed

lemma write_all_keeps_file:
  "write_all m t = (r, t') \<Longrightarrow> q \<notin> fst ` set m \<Longrightarrow> lookup t q = Some (File c) \<Longrightarrow>
   lookup t' q = Some (File c)"
proof (induction m arbitrary: t)
  case Nil
  then show ?case by simp
next
  case (Cons item m)
  obtain r1 t1 where w: "write_one t item = (r1, t1)"
    by (cases "write_one t item") auto
  from Cons.prems(2) have "q \<noteq> fst item" by auto
  from write_one_keeps_file [OF w this Cons.prems(3)] have d: "lookup t1 q = Some (File c)" .
  show ?case
  proof (cases r1)
    case None
    with w Cons.prems(1) have "write_all m t1 = (r, t')" by simp
    from Cons.IH [OF this _ d] Cons.prems(2) show ?thesis by simp
  next
    case (Some e)
    with w Cons.prems(1) d show ?thesis by simp
  qed
qed

lemma write_all_keeps_settled:
  "write_all m t = (r, t') \<Longrightarrow> fst other \<notin> fst ` set m \<Longrightarrow> settled t other \<Longrightarrow>
   settled t' other"
  using write_all_keeps_dir [of m t r t'] write_all_keeps_file [of m t r t' "fst other"]
  by (auto simp: settled_def)

lemma write_all_settled:
  "list_all (settled t) m \<Longrightarrow> write_all m t = (None, t)"
  by (induction m) (auto simp: write_one_settled)

lemma write_all_done:
  "write_all m t = (None, t') \<Longrightarrow> distinct (map fst m) \<Longrightarrow> list_all (settled t') m"
proof (induction m arbitrary: t)
  case Nil
  then show ?case by simp
next
  case (Cons item m)
  obtain r1 t1 where w: "write_one t item = (r1, t1)"
    by (cases "write_one t item") auto
  with Cons.prems(1) have r1: "r1 = None" and rest: "write_all m t1 = (None, t')"
    by (cases r1; simp)+
  from w r1 have "settled t1 item"
    by (auto intro: write_one_done)
  with write_all_keeps_settled [OF rest] Cons.prems(2) have "settled t' item"
    by auto
  moreover from Cons.IH [OF rest] Cons.prems(2) have "list_all (settled t') m"
    by simp
  ultimately show ?case
    by simp
qed

text \<open>
  Writing again from the tree a first pass left, finished or not, changes nothing and
  ends the same way.
\<close>

lemma write_all_again:
  "write_all m t = (r, t') \<Longrightarrow> distinct (map fst m) \<Longrightarrow> write_all m t' = (r, t')"
proof (induction m arbitrary: t)
  case Nil
  then show ?case by simp
next
  case (Cons item m)
  obtain r1 t1 where w: "write_one t item = (r1, t1)"
    by (cases "write_one t item") auto
  show ?case
  proof (cases r1)
    case None
    with w Cons.prems(1) have rest: "write_all m t1 = (r, t')"
      by simp
    from w None have "settled t1 item"
      by (auto intro: write_one_done)
    with write_all_keeps_settled [OF rest] Cons.prems(2) have "settled t' item"
      by auto
    then have "write_one t' item = (None, t')"
      by (rule write_one_settled)
    moreover from Cons.IH [OF rest] Cons.prems(2) have "write_all m t' = (r, t')"
      by simp
    ultimately show ?thesis
      by simp
  next
    case (Some e)
    with w Cons.prems(1) have "r = Some e" "t' = t1"
      by simp_all
    with w Some write_one_fails_again [of t item e t1] show ?thesis
      by simp
  qed
qed

subsection \<open>Removing the excess files\<close>

lemma remove_if_excess_eq:
  "remove_if_excess root m p t = (if excess root m p then unlink t p else t)"
  by (simp add: remove_if_excess_def excess_def)

lemma lookup_unlink:
  "lookup (unlink t k) p = (if p = k \<and> p \<noteq> [] then None else lookup t p)"
  by (auto simp: unlink_def lookup_def delete_conv')

lemma lookup_fold_remove:
  "lookup (fold (remove_if_excess root m) ps t) q =
     (if q \<in> set ps \<and> excess root m q \<and> q \<noteq> [] then None else lookup t q)"
  by (induction ps arbitrary: t) (auto simp: remove_if_excess_eq lookup_unlink)

lemma fold_remove_nothing:
  "\<forall>p\<in>set ps. \<not> excess root m p \<Longrightarrow> fold (remove_if_excess root m) ps t = t"
  by (induction ps arbitrary: t) (auto simp: remove_if_excess_eq)

lemma lookup_after_removal:
  "lookup (fold (remove_if_excess root m) (traverse t root) t) q =
     (if visits t root q \<and> excess root m q then None else lookup t q)"
  by (auto simp: lookup_fold_remove set_traverse visits_def is_file_iff
      dest: lookup_File_nonempty)

lemma remove_again:
  assumes "t' = fold (remove_if_excess root m) (traverse t root) t"
  shows "fold (remove_if_excess root m) (traverse t' root) t' = t'"
proof (rule fold_remove_nothing, rule ballI)
  fix p
  assume "p \<in> set (traverse t' root)"
  then have v': "visits t' root p"
    by (simp add: set_traverse)
  have sub: "lookup t q = Some v" if "lookup t' q = Some v" for q v
    using that unfolding assms lookup_fold_remove by (auto split: if_splits)
  from v' have "visits t root p"
    by (rule visits_mono) (rule sub)
  then have "p \<in> set (traverse t root)"
    by (simp add: set_traverse)
  moreover from v' obtain c where c: "lookup t' p = Some (File c)"
    by (auto simp: visits_def is_file_iff)
  then have "p \<noteq> []"
    by (rule lookup_File_nonempty)
  ultimately show "\<not> excess root m p"
    using c unfolding assms lookup_fold_remove by (auto split: if_splits)
qed

lemma settled_after_removal:
  assumes "settled t item" "is_managed m (fst item)"
  shows "settled (fold (remove_if_excess root m) (traverse t root) t) item"
proof -
  from assms(1) have "\<not> visits t root (parent (fst item))"
    by (auto simp: settled_def visits_def is_file_iff)
  with assms show ?thesis
    by (simp add: settled_def lookup_after_removal excess_def)
qed

subsection \<open>\<^verbatim>\<open>fix\<close> and \<^verbatim>\<open>check\<close>\<close>

text \<open>
  The three ways a run of \<^verbatim>\<open>fix\<close> ends: the generation raises, a managed file cannot
  be written, or the run completes.
\<close>

lemma fix_tree_cases:
  obtains (generation) e where "collect_managed root reg = Inl e"
      "fix_tree root reg t = (Some e, t)"
  | (writing) m e t1 where "collect_managed root reg = Inr m" "write_all m t = (Some e, t1)"
      "fix_tree root reg t = (Some e, t1)"
  | (complete) m t1 where "collect_managed root reg = Inr m" "write_all m t = (None, t1)"
      "fix_tree root reg t = (None, fold (remove_if_excess root m) (traverse t1 root) t1)"
proof (cases "collect_managed root reg")
  case (Inl e)
  then show ?thesis
    by (auto simp: fix_tree_def intro: generation)
next
  case (Inr m)
  obtain r t1 where w: "write_all m t = (r, t1)"
    by (cases "write_all m t") auto
  show ?thesis
  proof (cases r)
    case None
    with Inr w show ?thesis
      by (auto simp: fix_tree_def intro: complete)
  next
    case (Some e)
    with Inr w show ?thesis
      by (auto simp: fix_tree_def intro: writing)
  qed
qed

lemma fix_tree_generation_error:
  "collect_managed root reg = Inl e \<Longrightarrow> fix_tree root reg t = (Some e, t)"
  by (simp add: fix_tree_def)

lemma settled_after_fix:
  assumes "collect_managed root reg = Inr m" "write_all m t = (None, t1)"
  shows "list_all (settled (fold (remove_if_excess root m) (traverse t1 root) t1)) m"
proof -
  from write_all_done [OF assms(2) collect_managed_distinct [OF assms(1)]]
  have "list_all (settled t1) m" .
  then show ?thesis
    by (force simp: list_all_iff is_managed_iff intro!: settled_after_removal)
qed

lemma universal_newlines_plain: "CHR 0x0D \<notin> set s \<Longrightarrow> universal_newlines s = s"
  by (induction s rule: universal_newlines.induct) auto

lemma check_managed_settled:
  "list_all (settled t) m \<Longrightarrow> no_carriage_return m \<Longrightarrow> check_managed m t = ([], None)"
  by (induction m) (auto simp: settled_def no_carriage_return_def universal_newlines_plain)

lemma check_file_not_excess: "\<not> excess root m p \<Longrightarrow> check_file root m p = []"
  by (auto simp: check_file_def excess_def)

text \<open>
  Claim C6. Running \<^verbatim>\<open>fix\<close> on the tree that a run of \<^verbatim>\<open>fix\<close> left behind
  leaves the same tree, with the same files, contents and directories, and ends the same
  way. This holds for every tree and registry, also when the run is cut short by an
  error.
\<close>

theorem fix_idempotent:
  "fix_tree root reg (snd (fix_tree root reg t)) = fix_tree root reg t"
proof (cases rule: fix_tree_cases [of root reg t])
  case (generation e)
  then show ?thesis
    by (simp add: fix_tree_def)
next
  case (writing m e t1)
  from write_all_again [OF writing(2) collect_managed_distinct [OF writing(1)]]
  have "write_all m t1 = (Some e, t1)" .
  with writing show ?thesis
    by (simp add: fix_tree_def)
next
  case (complete m t1)
  let ?t' = "fold (remove_if_excess root m) (traverse t1 root) t1"
  from settled_after_fix [OF complete(1,2)] have "write_all m ?t' = (None, ?t')"
    by (rule write_all_settled)
  moreover have "fold (remove_if_excess root m) (traverse ?t' root) ?t' = ?t'"
    by (rule remove_again) simp
  ultimately show ?thesis
    using complete by (simp add: fix_tree_def)
qed

text \<open>
  A run of \<^verbatim>\<open>fix\<close> completes when the registry is well formed, the generation
  succeeds and every managed path can be written in the tree.
\<close>

lemma prefix_parent: "prefix q (parent d) \<Longrightarrow> prefix q d"
  by (metis parent_def prefix_order.trans prefixeq_butlast)

lemma mkdir_parents_succeeds:
  "(\<And>q. prefix q d \<Longrightarrow> \<not> is_file t q) \<Longrightarrow> \<exists>t'. mkdir_parents t d = Inr t'"
proof (induction t d rule: mkdir_parents.induct)
  case (1 t d)
  show ?case
  proof (cases "lookup t d")
    case None
    show ?thesis
    proof (cases "lookup t (parent d)")
      case pn: None
      have "\<exists>t'. mkdir_parents t (parent d) = Inr t'"
        using "1.IH" [OF None pn] "1.prems" prefix_parent by blast
      with None pn show ?thesis
        by (auto simp: mkdir_parents.simps [of t d])
    next
      case (Some n)
      have "\<not> is_file t (parent d)"
        using "1.prems" [of "parent d"] prefix_parent [of "parent d" d] by simp
      with None Some show ?thesis
        by (cases n) (auto simp: mkdir_parents.simps [of t d] is_file_iff)
    qed
  next
    case (Some n)
    have "\<not> is_file t d"
      using "1.prems" [of d] by simp
    with Some show ?thesis
      by (cases n) (auto simp: mkdir_parents.simps [of t d] is_file_iff)
  qed
qed

lemma mkdir_parents_adds:
  "mkdir_parents t d = Inr t' \<Longrightarrow> lookup t' q \<noteq> lookup t q \<Longrightarrow> prefix q d"
proof (induction t d arbitrary: t' rule: mkdir_parents.induct)
  case (1 t d)
  show ?case
  proof (cases "lookup t d")
    case None
    then have d: "d \<noteq> []"
      by (rule lookup_None_nonempty)
    show ?thesis
    proof (cases "lookup t (parent d)")
      case pn: None
      with None "1.prems" obtain t1 where t1: "mkdir_parents t (parent d) = Inr t1"
        and t': "t' = AList.update d Dir t1"
        by (cases "mkdir_parents t (parent d)") (auto simp: mkdir_parents.simps [of t d])
      show ?thesis
      proof (cases "q = d")
        case True
        then show ?thesis by simp
      next
        case False
        with t' d "1.prems"(2) have "lookup t1 q \<noteq> lookup t q"
          by (simp add: lookup_update)
        from "1.IH" [OF None pn t1 this] show ?thesis
          by (rule prefix_parent)
      qed
    next
      case (Some n)
      with None "1.prems" d show ?thesis
        by (cases n) (auto simp: mkdir_parents.simps [of t d] lookup_update split: if_splits)
    qed
  next
    case (Some n)
    with "1.prems" show ?thesis
      by (cases n) (auto simp: mkdir_parents.simps [of t d])
  qed
qed

lemma parent_not_prefix: "p \<noteq> [] \<Longrightarrow> \<not> prefix p (parent p)"
  by (cases p rule: rev_cases) (auto simp: parent_def)

lemma write_one_new_dir:
  assumes "write_one t (p, c) = (r, t')" "lookup t q = None" "lookup t' q = Some Dir"
  shows "prefix q (parent p)"
proof (cases "mkdir_parents t (parent p)")
  case (Inl e)
  with assms show ?thesis
    by (simp add: write_one_def)
next
  case (Inr t1)
  have "lookup t' q = Some Dir \<Longrightarrow> lookup t1 q = Some Dir"
  proof (cases "write_text (touch t1 p) p c")
    case (Inl e)
    with assms(1) Inr have "t' = touch t1 p"
      by (simp add: write_one_def)
    then show "lookup t' q = Some Dir \<Longrightarrow> lookup t1 q = Some Dir"
      by (auto simp: lookup_touch split: if_splits)
  next
    case w: (Inr t3)
    with assms(1) Inr have "t' = t3"
      by (simp add: write_one_def)
    with write_text_ok [OF w] show "lookup t' q = Some Dir \<Longrightarrow> lookup t1 q = Some Dir"
      by (auto simp: lookup_update lookup_touch split: if_splits)
  qed
  with assms(2,3) have "lookup t1 q \<noteq> lookup t q"
    by simp
  with Inr show ?thesis
    by (rule mkdir_parents_adds)
qed

lemma writable_iff:
  "writable t p \<longleftrightarrow> (\<forall>q. prefix q (parent p) \<longrightarrow> \<not> is_file t q) \<and> lookup t p \<noteq> Some Dir"
  by (auto simp: writable_def list_all_iff in_set_prefixes)

lemma write_one_succeeds:
  assumes "writable t p"
  shows "\<exists>t'. write_one t (p, c) = (None, t')"
proof -
  from assms have "p \<noteq> []"
    by (auto simp: writable_iff)
  from assms obtain t1 where m: "mkdir_parents t (parent p) = Inr t1"
    using mkdir_parents_succeeds [of "parent p" t] by (auto simp: writable_iff)
  have "lookup t1 p \<noteq> Some Dir"
  proof
    assume dir: "lookup t1 p = Some Dir"
    with assms have "lookup t1 p \<noteq> lookup t p"
      by (auto simp: writable_iff)
    with m have "prefix p (parent p)"
      by (rule mkdir_parents_adds)
    with \<open>p \<noteq> []\<close> show False
      by (simp add: parent_not_prefix)
  qed
  then have "lookup (touch t1 p) p \<noteq> Some Dir"
    by (auto simp: lookup_touch)
  then obtain t3 where "write_text (touch t1 p) p c = Inr t3"
    by (cases "lookup (touch t1 p) p"; cases "the (lookup (touch t1 p) p)")
       (auto simp: write_text_def)
  with m show ?thesis
    by (simp add: write_one_def)
qed

lemma writable_after_write_one:
  assumes w: "write_one t (p, c) = (r, t')"
    and "writable t p'" "\<not> strict_prefix p p'" "\<not> strict_prefix p' p"
  shows "writable t' p'"
proof -
  from assms(2) have p': "p' \<noteq> []"
    by (auto simp: writable_iff)
  have "\<not> is_file t' q" if q: "prefix q (parent p')" for q
  proof
    assume f: "is_file t' q"
    from assms(2) q have nf: "\<not> is_file t q"
      by (simp add: writable_iff)
    with f write_one_result [OF w, of q] have "q = p"
      by (auto simp: is_file_iff)
    with q p' have "strict_prefix p p'"
      by (cases p' rule: rev_cases) (auto simp: parent_def strict_prefix_def)
    with assms(3) show False
      by simp
  qed
  moreover have "lookup t' p' \<noteq> Some Dir"
  proof
    assume d: "lookup t' p' = Some Dir"
    from assms(2) have "lookup t p' \<noteq> Some Dir"
      by (simp add: writable_iff)
    with d write_one_result [OF w, of p'] have "lookup t p' = None"
      by auto
    from write_one_new_dir [OF w this d] have "prefix p' (parent p)" .
    with p' have "strict_prefix p' p"
      by (cases p rule: rev_cases) (auto simp: parent_def strict_prefix_def)
    with assms(4) show False
      by simp
  qed
  ultimately show ?thesis
    by (simp add: writable_iff)
qed

lemma write_all_succeeds:
  "list_all (writable t) (map fst m) \<Longrightarrow>
   (\<And>p p'. p \<in> fst ` set m \<Longrightarrow> p' \<in> fst ` set m \<Longrightarrow> \<not> strict_prefix p p') \<Longrightarrow>
   fst (write_all m t) = None"
proof (induction m arbitrary: t)
  case Nil
  then show ?case by simp
next
  case (Cons item m)
  obtain p c where item: "item = (p, c)"
    by (cases item) auto
  from Cons.prems(1) item obtain t1 where w: "write_one t (p, c) = (None, t1)"
    using write_one_succeeds [of t p c] by auto
  have "list_all (writable t1) (map fst m)"
    unfolding list_all_iff
  proof
    fix p'
    assume p': "p' \<in> set (map fst m)"
    with Cons.prems(1) have "writable t p'"
      by (auto simp: list_all_iff)
    moreover from p' item Cons.prems(2) [of p p'] Cons.prems(2) [of p' p]
    have "\<not> strict_prefix p p'" "\<not> strict_prefix p' p"
      by auto
    ultimately show "writable t1 p'"
      using w by (auto intro: writable_after_write_one)
  qed
  moreover have "\<And>p p'. p \<in> fst ` set m \<Longrightarrow> p' \<in> fst ` set m \<Longrightarrow> \<not> strict_prefix p p'"
    using Cons.prems(2) by auto
  ultimately have "fst (write_all m t1) = None"
    by (rule Cons.IH)
  with w item show ?case
    by simp
qed

lemma split_slash_no_dot_piece:
  "w \<in> set (split_slash (replace_dots s)) \<Longrightarrow> w \<noteq> ''__init__.py''"
  using split_slash_no_dot [OF no_dot_replace_dots, of w s] by auto

lemma managed_paths_not_nested:
  assumes "wf_name a" "wf_name b"
  shows "\<not> strict_prefix (managed_path root a) (managed_path root b)"
proof
  let ?a = "split_slash (replace_dots a)" and ?b = "split_slash (replace_dots b)"
  assume "strict_prefix (managed_path root a) (managed_path root b)"
  with assms have "strict_prefix (?a @ [''__init__.py'']) (?b @ [''__init__.py''])"
    by (simp add: managed_path_wf strict_prefix_def del: prefix_snoc)
  then have "prefix (?a @ [''__init__.py'']) ?b"
    by (auto simp: strict_prefix_def)
  then have "''__init__.py'' \<in> set ?b"
    by (auto simp: prefix_def)
  then show False
    using split_slash_no_dot_piece by blast
qed

lemma fix_tree_completes:
  assumes "wf_registry reg" "collect_managed root reg = Inr m"
    and "list_all (writable t) (map fst m)"
  shows "fst (fix_tree root reg t) = None"
proof -
  have keys: "fst ` set m = (\<lambda>item. managed_path root (fst item)) ` set reg"
    using collect_loop_keys [OF assms(2) [unfolded collect_managed_def]] by simp
  have "\<not> strict_prefix p p'" if "p \<in> fst ` set m" "p' \<in> fst ` set m" for p p'
  proof -
    from that keys obtain ia ib where i: "ia \<in> set reg" "p = managed_path root (fst ia)"
      "ib \<in> set reg" "p' = managed_path root (fst ib)"
      by auto
    with assms(1) have "wf_name (fst ia)" "wf_name (fst ib)"
      by (simp_all add: wf_registry_def list_all_iff)
    with i show ?thesis
      by (simp add: managed_paths_not_nested)
  qed
  with assms(3) have "fst (write_all m t) = None"
    by (rule write_all_succeeds)
  with assms(2) show ?thesis
    by (cases "write_all m t") (auto simp: fix_tree_def)
qed

text \<open>
  After a run of \<^verbatim>\<open>fix\<close> that completed, every managed file holds its content
  and no excess file is left, so \<^verbatim>\<open>check\<close> finds nothing to report, provided the
  contents read back as written.
\<close>

lemma check_after_complete_fix:
  assumes "collect_managed root reg = Inr m"
    and "no_carriage_return m"
    and "fst (fix_tree root reg t) = None"
  shows "check root reg (snd (fix_tree root reg t)) = ([AliasesCorrect], None)
    \<and> exit_status (snd (check root reg (snd (fix_tree root reg t)))) = 0"
proof (cases rule: fix_tree_cases [of root reg t])
  case (generation e)
  with assms(3) show ?thesis by simp
next
  case (writing m' e t1)
  with assms(3) show ?thesis by simp
next
  case (complete m' t1)
  with assms(1) have m: "m' = m"
    by simp
  note complete = complete [unfolded m]
  let ?t' = "fold (remove_if_excess root m) (traverse t1 root) t1"
  from settled_after_fix [OF complete(1,2)] assms(2)
  have managed: "check_managed m ?t' = ([], None)"
    by (rule check_managed_settled)
  have "check_file root m p = []" if "p \<in> set (traverse ?t' root)" for p
  proof (rule check_file_not_excess)
    from that have v: "visits ?t' root p"
      by (simp add: set_traverse)
    then have "visits t1 root p"
      by (rule visits_mono) (auto simp: lookup_after_removal split: if_splits)
    moreover from v have "lookup ?t' p \<noteq> None"
      by (auto simp: visits_def is_file_iff)
    ultimately show "\<not> excess root m p"
      by (auto simp: lookup_after_removal)
  qed
  then have "concat (map (check_file root m) (traverse ?t' root)) = []"
    by simp
  with managed complete show ?thesis
    by (simp add: check_def exit_status_def)
qed

text \<open>
  Claim C5 takes a tree for valid when its registry produces no alias collision, and
  says that \<^verbatim>\<open>check\<close> succeeds after \<^verbatim>\<open>fix\<close> on every valid tree. No collision
  does not make \<^verbatim>\<open>fix\<close> complete. In the tree below a regular file \<^verbatim>\<open>pkg\<close>
  stands where the package \<^verbatim>\<open>pkg.sub\<close>, registered without any declaration, needs a
  directory: \<^verbatim>\<open>mkdir\<close> raises, \<^verbatim>\<open>fix\<close> ends there with the tree as it was, and
  \<^verbatim>\<open>check\<close> reports the missing file and exits with status 1.
\<close>

theorem obstructed_tree_is_not_fixed:
  "collect_managed [''repo''] [(''pkg.sub'', [])]
     = Inr [([''repo'', ''pkg'', ''sub'', ''__init__.py''], header)]
   \<and> fix_tree [''repo''] [(''pkg.sub'', [])] tree3 = (Some NotADirectoryError, tree3)
   \<and> check [''repo''] [(''pkg.sub'', [])] (snd (fix_tree [''repo''] [(''pkg.sub'', [])] tree3))
       = ([ShouldExist [''repo'', ''pkg'', ''sub'', ''__init__.py''], RunFix], Some Divergence)
   \<and> exit_status (snd (check [''repo''] [(''pkg.sub'', [])]
        (snd (fix_tree [''repo''] [(''pkg.sub'', [])] tree3)))) = 1"
  by code_simp

text \<open>
  Claim C5, amended. Take a registry of well-formed dotted package names, none of whose
  names holds a carriage return, and a tree on which \<^verbatim>\<open>fix\<close> runs to completion with
  that registry (\<open>fix_tree_completes\<close> gives a condition on the tree for that). Then
  \<^verbatim>\<open>check\<close>, run with the same registry on the tree \<^verbatim>\<open>fix\<close> left, prints the
  success message and nothing else, and returns without error, so the process exits with
  status 0.
\<close>

theorem check_after_fix:
  assumes "wf_registry reg"
    and "plain_registry reg"
    and "fst (fix_tree root reg t) = None"
  shows "check root reg (snd (fix_tree root reg t)) = ([AliasesCorrect], None)
    \<and> exit_status (snd (check root reg (snd (fix_tree root reg t)))) = 0"
proof (cases "collect_managed root reg")
  case (Inl e)
  with assms(3) show ?thesis
    by (simp add: fix_tree_def)
next
  case (Inr m)
  from plain_registry_contents [OF Inr assms(2)] have "no_carriage_return m" .
  with Inr show ?thesis
    using assms(3) by (rule check_after_complete_fix)
qed

theorem check_after_fix_witness:
  "wf_registry [(''hopsworks.x'', [(''hopsworks.impl'', ''Foo'', plain)]), (''pkg'', [])]
   \<and> collect_managed [''repo'']
         [(''hopsworks.x'', [(''hopsworks.impl'', ''Foo'', plain)]), (''pkg'', [])]
       = Inr [([''repo'', ''hopsworks'', ''x'', ''__init__.py''],
               header @ ''import hopsworks.internal.aliases'' @ nl
               @ ''import hopsworks.impl'' @ nl @ ''Foo = hopsworks.impl.Foo'' @ nl),
              ([''repo'', ''pkg'', ''__init__.py''], header)]
   \<and> plain_registry [(''hopsworks.x'', [(''hopsworks.impl'', ''Foo'', plain)]), (''pkg'', [])]
   \<and> fst (fix_tree [''repo'']
         [(''hopsworks.x'', [(''hopsworks.impl'', ''Foo'', plain)]), (''pkg'', [])] tree1) = None
   \<and> check [''repo''] [(''hopsworks.x'', [(''hopsworks.impl'', ''Foo'', plain)]), (''pkg'', [])]
         (snd (fix_tree [''repo'']
            [(''hopsworks.x'', [(''hopsworks.impl'', ''Foo'', plain)]), (''pkg'', [])] tree1))
       = ([AliasesCorrect], None)
   \<and> exit_status (snd (check [''repo'']
         [(''hopsworks.x'', [(''hopsworks.impl'', ''Foo'', plain)]), (''pkg'', [])]
         (snd (fix_tree [''repo'']
            [(''hopsworks.x'', [(''hopsworks.impl'', ''Foo'', plain)]), (''pkg'', [])] tree1)))) = 0"
proof -
  let ?reg = "[(''hopsworks.x'', [(''hopsworks.impl'', ''Foo'', plain)]), (''pkg'', [])]"
  let ?m = "[([''repo'', ''hopsworks'', ''x'', ''__init__.py''],
               header @ ''import hopsworks.internal.aliases'' @ nl
               @ ''import hopsworks.impl'' @ nl @ ''Foo = hopsworks.impl.Foo'' @ nl),
              ([''repo'', ''pkg'', ''__init__.py''], header)]"
  have wf: "wf_registry ?reg"
    by code_simp
  have gen: "collect_managed [''repo''] ?reg = Inr ?m"
    by code_simp
  have names: "plain_registry ?reg"
    by code_simp
  have completes: "fst (fix_tree [''repo''] ?reg tree1) = None"
    by code_simp
  from check_after_fix [OF wf names completes] wf names gen completes show ?thesis
    by (simp add: exit_status_def)
qed

text \<open>
  Claim C9 asks that \<^verbatim>\<open>fix\<close> exits with status 1 and leaves the tree untouched
  when the registry holds an alias collision. A generation that fails does leave the
  tree untouched (\<open>fix_tree_generation_error\<close>), but a collision does not make it
  fail (\<open>no_collision_reported\<close>): on the registry where \<^verbatim>\<open>pkg.a.Foo\<close> and
  \<^verbatim>\<open>pkg.b.Foo\<close> are both exported as \<^verbatim>\<open>Foo\<close> from \<^verbatim>\<open>pkg.sub\<close>, \<^verbatim>\<open>fix\<close>
  returns without error after creating two directories and writing the file.
\<close>

theorem collision_is_written:
  "fix_tree [''repo''] collision_registry [([''repo''], Dir)]
   = (None,
      [([''repo''], Dir),
       ([''repo'', ''pkg''], Dir),
       ([''repo'', ''pkg'', ''sub''], Dir),
       ([''repo'', ''pkg'', ''sub'', ''__init__.py''],
        File (header
           @ ''import hopsworks.internal.aliases'' @ nl
           @ ''import pkg.a'' @ nl
           @ ''Foo = pkg.a.Foo'' @ nl
           @ ''import pkg.b'' @ nl
           @ ''Foo = pkg.b.Foo'' @ nl))])"
  by code_simp

subsection \<open>What \<^verbatim>\<open>check\<close> prints\<close>

lemma check_managed_messages:
  "msg \<in> set (fst (check_managed m t)) \<Longrightarrow>
   (\<exists>p. msg = ShouldExist p \<and> p \<in> fst ` set m \<and> lookup t p = None)
   \<or> (\<exists>p. msg = WrongContent p \<and> p \<in> fst ` set m \<and> is_file t p)"
proof (induction m)
  case Nil
  then show ?case by simp
next
  case (Cons item m)
  obtain p c where item: "item = (p, c)"
    by (cases item) auto
  obtain ms r where rest: "check_managed m t = (ms, r)"
    by (cases "check_managed m t") auto
  show ?case
  proof (cases "lookup t p")
    case None
    with Cons.prems item rest have "msg = ShouldExist p \<or> msg \<in> set (fst (check_managed m t))"
      by auto
    with Cons.IH None item show ?thesis
      by auto
  next
    case (Some n)
    show ?thesis
    proof (cases n)
      case (File body)
      with Cons.prems item rest Some
      have "msg = WrongContent p \<or> msg \<in> set (fst (check_managed m t))"
        by (auto split: if_splits)
      with Cons.IH Some File item show ?thesis
        by (auto simp: is_file_iff)
    next
      case Dir
      with Cons.prems item Some show ?thesis
        by simp
    qed
  qed
qed

lemma check_messages:
  assumes "msg \<in> set (fst (check root reg t))"
  obtains (managed) m where "collect_managed root reg = Inr m"
      "msg \<in> set (fst (check_managed m t))"
  | (walk) m p where "collect_managed root reg = Inr m" "p \<in> set (traverse t root)"
      "msg \<in> set (check_file root m p)"
  | (final) "msg = AliasesCorrect \<or> msg = RunFix"
proof (cases "collect_managed root reg")
  case (Inl e)
  with assms show ?thesis
    by (simp add: check_def)
next
  case (Inr m)
  obtain ms r where cm: "check_managed m t = (ms, r)"
    by (cases "check_managed m t") auto
  show ?thesis
  proof (cases r)
    case (Some e)
    with assms Inr cm show ?thesis
      by (auto simp: check_def intro: managed)
  next
    case None
    with assms Inr cm
    have "msg \<in> set ms \<or> (\<exists>p\<in>set (traverse t root). msg \<in> set (check_file root m p))
        \<or> msg = AliasesCorrect \<or> msg = RunFix"
      by (auto simp: check_def Let_def split: if_splits)
    with Inr cm show ?thesis
      by (auto intro: managed walk final)
  qed
qed

lemma check_file_message:
  "msg \<in> set (check_file root m p) \<Longrightarrow>
   msg = ShouldntExist p \<and> parent p \<noteq> root \<and> \<not> under_ignored root p
   \<and> \<not> suffix_is_pyc p \<and> ''__pycache__'' \<notin> set p \<and> \<not> is_managed m p"
  by (auto simp: check_file_def split: if_splits)





text \<open>
  Claim C10 says that \<^verbatim>\<open>check\<close> never reports a file with a \<^verbatim>\<open>__pycache__\<close>
  component. The exemption is in the walk only: the generated file of a package named
  \<^verbatim>\<open>__pycache__\<close> is reported when its content is stale.
\<close>

theorem managed_cache_file_is_reported:
  "''__pycache__'' \<in> set [''repo'', ''__pycache__'', ''__init__.py'']
   \<and> is_file tree2 [''repo'', ''__pycache__'', ''__init__.py'']
   \<and> check [''repo''] [(''__pycache__'', [])] tree2
       = ([WrongContent [''repo'', ''__pycache__'', ''__init__.py''], RunFix], Some Divergence)"
  by code_simp

text \<open>
  Claim C10, amended. For a file with suffix \<^verbatim>\<open>.pyc\<close> or a \<^verbatim>\<open>__pycache__\<close>
  component: the walk of \<^verbatim>\<open>check\<close> never reports it as a file that should not
  exist, and \<^verbatim>\<open>check\<close> prints nothing about it unless it is a managed file; a run
  of \<^verbatim>\<open>fix\<close> that completes deletes it when it is a file of the tree that is not
  managed, not directly inside the root and not under a source root or ignored path.
\<close>

theorem bytecode_files:
  assumes "suffix_is_pyc p \<or> ''__pycache__'' \<in> set p"
  shows "ShouldntExist p \<notin> set (fst (check root reg t))
    \<and> (\<not> managed_file root reg p \<longrightarrow> \<not> list_ex (\<lambda>msg. mentions msg p) (fst (check root reg t)))
    \<and> (fst (fix_tree root reg t) = None \<and> p \<in> set (traverse t root)
        \<and> \<not> managed_file root reg p \<and> parent p \<noteq> root \<and> \<not> under_ignored root p
        \<longrightarrow> lookup (snd (fix_tree root reg t)) p = None)"
proof (intro conjI impI)
  show "ShouldntExist p \<notin> set (fst (check root reg t))"
  proof
    assume "ShouldntExist p \<in> set (fst (check root reg t))"
    then show False
    proof (cases rule: check_messages)
      case (managed m)
      then show False by (auto dest: check_managed_messages)
    next
      case (walk m q)
      with assms show False by (auto dest: check_file_message)
    next
      case final
      then show False by simp
    qed
  qed
next
  assume unmanaged: "\<not> managed_file root reg p"
  show "\<not> list_ex (\<lambda>msg. mentions msg p) (fst (check root reg t))"
  proof
    assume "list_ex (\<lambda>msg. mentions msg p) (fst (check root reg t))"
    then obtain msg where msg: "msg \<in> set (fst (check root reg t))" "mentions msg p"
      by (auto simp: list_ex_iff)
    from msg(1) show False
    proof (cases rule: check_messages)
      case (managed m)
      from check_managed_messages [OF managed(2)] msg(2) have "p \<in> fst ` set m"
        by force
      with managed(1) unmanaged show False
        by (simp add: managed_file_def is_managed_iff)
    next
      case (walk m q)
      with msg(2) assms show False
        by (auto dest!: check_file_message)
    next
      case final
      with msg(2) show False by auto
    qed
  qed
next
  assume a: "fst (fix_tree root reg t) = None \<and> p \<in> set (traverse t root)
      \<and> \<not> managed_file root reg p \<and> parent p \<noteq> root \<and> \<not> under_ignored root p"
  show "lookup (snd (fix_tree root reg t)) p = None"
  proof (cases rule: fix_tree_cases [of root reg t])
    case (generation e)
    with a show ?thesis by simp
  next
    case (writing m e t1)
    with a show ?thesis by simp
  next
    case (complete m t1)
    from a have "visits t root p"
      by (simp add: set_traverse)
    then have "visits t1 root p"
      unfolding visits_def
      using write_all_is_file [OF complete(2)] write_all_keeps_dir [OF complete(2)]
      by blast
    moreover from a complete(1) have "excess root m p"
      by (simp add: excess_def managed_file_def)
    ultimately show ?thesis
      using complete(3) by (simp add: lookup_after_removal)
  qed
qed

theorem bytecode_files_witness:
  "suffix_is_pyc [''repo'', ''junk'', ''a.pyc'']
   \<and> [''repo'', ''junk'', ''a.pyc''] \<in> set (traverse tree1 [''repo''])
   \<and> ShouldntExist [''repo'', ''junk'', ''a.pyc''] \<notin> set (fst (check [''repo''] [] tree1))
   \<and> \<not> list_ex (\<lambda>msg. mentions msg [''repo'', ''junk'', ''a.pyc'']) (fst (check [''repo''] [] tree1))
   \<and> lookup (snd (fix_tree [''repo''] [] tree1)) [''repo'', ''junk'', ''a.pyc''] = None"
proof -
  let ?p = "[''repo'', ''junk'', ''a.pyc'']"
  have pyc: "suffix_is_pyc ?p \<or> ''__pycache__'' \<in> set ?p"
    by code_simp
  have s: "suffix_is_pyc ?p"
    by code_simp
  have pre: "fst (fix_tree [''repo''] [] tree1) = None \<and> ?p \<in> set (traverse tree1 [''repo''])
      \<and> \<not> managed_file [''repo''] [] ?p \<and> parent ?p \<noteq> [''repo''] \<and> \<not> under_ignored [''repo''] ?p"
    by code_simp
  from bytecode_files [OF pyc, of "[''repo'']" "[]" tree1] pre s show ?thesis
    by simp
qed

end
